theory Spec2Isabelle
  imports Main "HOL-Library.Word" "HOL-Library.Signed_Division"
begin

section \<open>One-Time-Pad: the cipher, the transfer loop, the file scanner and the two mains\<close>

text \<open>
  The development follows two C files: \<^verbatim>\<open>otp_enc_d.c\<close> (the encryption daemon: its
  functions \<^verbatim>\<open>encrypt\<close> and \<^verbatim>\<open>sendrecv\<close> and the child branch of its \<^verbatim>\<open>main\<close>) and
  \<^verbatim>\<open>otp_dec.c\<close> (the decryption client: \<^verbatim>\<open>scanfile\<close>, \<^verbatim>\<open>readfile\<close>, \<^verbatim>\<open>sendrecv\<close> and
  \<^verbatim>\<open>main\<close>). The two copies of \<^verbatim>\<open>sendrecv\<close> are the same function.
  A C \<^verbatim>\<open>char\<close> is an 8-bit word; \<^verbatim>\<open>(int)c\<close> reads it as two's complement
  (\<open>sint\<close>: \<^verbatim>\<open>char\<close> is signed on the platforms these socket programs are built for;
  on the 27 symbols of the alphabet the signed and the unsigned reading agree).
  A C \<^verbatim>\<open>int\<close> is modelled by \<open>int\<close>. Where the program turns text of any length
  into an \<^verbatim>\<open>int\<close> (\<^verbatim>\<open>atoi\<close>), the cut to 32 bits is written out; every other value
  is computed from in-range arguments and stays inside 32 bits (sums of two bytes, counts
  bounded by the requested length, the length of a line of a file that is shorter than
  \<open>2 ^ 31\<close> bytes).
  A C buffer is a list of bytes; an access outside the list is undefined behaviour in C
  and is the value \<open>None\<close> (or \<open>Inl\<close> of a fault) in the model.
\<close>

type_synonym byte = "8 word"

definition bytes_of :: "string \<Rightarrow> byte list" where
  "bytes_of s = map of_char s"

subsection \<open>Definitions: \<^verbatim>\<open>encrypt\<close> (otp\_enc\_d.c, lines 221-249)\<close>

text \<open>The three arrays \<^verbatim>\<open>encrypt\<close> is handed. The daemon passes three distinct local
  arrays, so they do not overlap.\<close>

record enc_bufs =
  plain :: "byte list"
  key :: "byte list"
  cipher :: "byte list"

text \<open>\<^verbatim>\<open>memset(s, c, n)\<close> on a buffer of \<open>length s\<close> bytes. The count is a
  \<^verbatim>\<open>size_t\<close>: a negative \<^verbatim>\<open>int\<close> becomes a huge count, which overruns the
  buffer just as a too large one does.\<close>

definition memset :: "byte list \<Rightarrow> byte \<Rightarrow> int \<Rightarrow> byte list option" where
  "memset s c n =
     (if 0 \<le> n \<and> n \<le> int (length s) then Some (replicate (nat n) c @ drop (nat n) s) else None)"

text \<open>One pass of the body of the \<^verbatim>\<open>for\<close> loop, at index \<open>i\<close>. \<^verbatim>\<open>%\<close> is C's
  remainder, truncating towards zero (\<open>smod\<close>); \<^verbatim>\<open>(char)\<close> keeps the low 8 bits.\<close>

definition encrypt_body :: "nat \<Rightarrow> enc_bufs \<Rightarrow> enc_bufs option" where
  "encrypt_body i b =
     (if i < length (plain b) \<and> i < length (key b) \<and> i < length (cipher b) then
        let p1 = (if plain b ! i = 0x20 then (plain b)[i := 0x40] else plain b);
            k1 = (if key b ! i = 0x20 then (key b)[i := 0x40] else key b);
            cPlain = sint (p1 ! i) - 64;
            cKey = sint (k1 ! i) - 64;
            cCipher = (cPlain + cKey) smod 27;
            c1 = (cipher b)[i := word_of_int (cCipher + 64)];
            c2 = (if c1 ! i = 0x40 then c1[i := 0x20] else c1)
        in Some \<lparr>plain = p1, key = k1, cipher = c2\<rparr>
      else None)"

function encrypt_loop :: "int \<Rightarrow> int \<Rightarrow> enc_bufs \<Rightarrow> enc_bufs option" where
  "encrypt_loop i len b =
     (if i < len then
        (case encrypt_body (nat i) b of
           None \<Rightarrow> None
         | Some b' \<Rightarrow> encrypt_loop (i + 1) len b')
      else Some b)"
  by pat_completeness auto
termination
  by (relation "measure (\<lambda>(i, len, b). nat (len - i))") auto

declare encrypt_loop.simps [simp del]

text \<open>\<^verbatim>\<open>void encrypt(char* plain, char* key, char* cipher, int len)\<close>: the result is the
  state of the three arrays when the function returns.\<close>

definition encrypt :: "byte list \<Rightarrow> byte list \<Rightarrow> byte list \<Rightarrow> int \<Rightarrow> enc_bufs option" where
  "encrypt p k c len =
     (case memset c 0 (len + 1) of
        None \<Rightarrow> None
      | Some c0 \<Rightarrow> encrypt_loop 0 len \<lparr>plain = p, key = k, cipher = c0\<rparr>)"

text \<open>The alphabet: the 26 capital letters and the space.\<close>

definition Sigma :: "byte set" where
  "Sigma = {c. c = 0x20 \<or> (0x41 \<le> c \<and> c \<le> 0x5A)}"

text \<open>The numbering of the symbols that the code works with: the space is first turned
  into \<^verbatim>\<open>'@'\<close> (64) and 64 is subtracted, so the space is 0 and the letters are 1..26
  (keygen.c draws from the same range, \<^verbatim>\<open>MIN_CHAR 64\<close> to \<^verbatim>\<open>MAX_CHAR 90\<close>).\<close>

definition at_index :: "byte \<Rightarrow> int" where
  "at_index c = (if c = 0x20 then 0 else sint c - 64)"

definition at_symbol :: "int \<Rightarrow> byte" where
  "at_symbol n = (if n = 0 then 0x20 else word_of_int (n + 64))"

definition at_transform :: "byte list \<Rightarrow> byte list \<Rightarrow> byte list" where
  "at_transform t k = map2 (\<lambda>a b. at_symbol ((at_index a + at_index b) mod 27)) t k"

text \<open>The numbering in the words of the specification (section 3): the letters in
  order are 0..25 and the space is 26; ENCRYPT is \<open>c = (t + k) mod 27\<close> (section 4.1).\<close>

definition spec_index :: "byte \<Rightarrow> int" where
  "spec_index c = (if c = 0x20 then 26 else sint c - 65)"

definition spec_symbol :: "int \<Rightarrow> byte" where
  "spec_symbol n = (if n = 26 then 0x20 else word_of_int (n + 65))"

definition spec_transform :: "byte list \<Rightarrow> byte list \<Rightarrow> byte list" where
  "spec_transform t k = map2 (\<lambda>a b. spec_symbol ((spec_index a + spec_index b) mod 27)) t k"

text \<open>What one pass of the loop leaves in the text or key array, and in the output array.\<close>

definition despace :: "byte \<Rightarrow> byte" where
  "despace c = (if c = 0x20 then 0x40 else c)"

definition enc_byte :: "byte \<Rightarrow> byte \<Rightarrow> byte" where
  "enc_byte p k =
     (let c = word_of_int ((sint (despace p) - 64 + (sint (despace k) - 64)) smod 27 + 64) :: byte
      in if c = 0x40 then 0x20 else c)"

text \<open>The single-symbol call of the permutation law: one text symbol, one key symbol,
  each in a two-byte array with its terminator, as the daemon lays its arrays out.\<close>

definition encrypt_symbol :: "byte \<Rightarrow> byte \<Rightarrow> byte option" where
  "encrypt_symbol p k = map_option (\<lambda>b. cipher b ! 0) (encrypt [p, 0] [k, 0] [0, 0] 1)"

subsection \<open>Definitions: \<^verbatim>\<open>sendrecv\<close> (otp\_enc\_d.c, lines 191-211; otp\_dec.c, lines 223-245)\<close>

text \<open>Undefined behaviour of the C program, as a value.\<close>

datatype fault = OutOfBounds | StackOverflow

text \<open>
  The connected socket, seen from the process. What \<^verbatim>\<open>send\<close> and \<^verbatim>\<open>recv\<close> return is
  not decided by the program: \<open>ret c k n\<close> is the value the \<open>k\<close>-th call on the socket
  returns when it is asked to move \<open>n\<close> bytes, and \<open>inbound c\<close> is the stream of bytes
  the peer sends. The other three fields record what has happened so far: the number of
  calls made, the number of inbound bytes delivered, and the bytes handed to the peer.
\<close>

record conn =
  ret :: "nat \<Rightarrow> int \<Rightarrow> int"
  inbound :: "nat \<Rightarrow> byte"
  calls :: nat
  taken :: nat
  sent :: "byte list"

text \<open>\<^verbatim>\<open>n = send(sockFD, data, rem, 0)\<close>: the first \<open>n\<close> of the \<open>rem\<close> bytes offered go
  to the peer.\<close>

definition sys_send :: "conn \<Rightarrow> byte list \<Rightarrow> int \<Rightarrow> int \<times> conn" where
  "sys_send c data rem =
     (let n = ret c (calls c) rem
      in (n, c\<lparr>calls := calls c + 1, sent := sent c @ take (nat n) data\<rparr>))"

text \<open>\<^verbatim>\<open>n = recv(sockFD, buf, rem, 0)\<close>: the next \<open>n\<close> inbound bytes are delivered.\<close>

definition sys_recv :: "conn \<Rightarrow> int \<Rightarrow> int \<times> byte list \<times> conn" where
  "sys_recv c rem =
     (let n = ret c (calls c) rem
      in (n, map (inbound c) [taken c ..< taken c + nat n],
          c\<lparr>calls := calls c + 1, taken := taken c + nat n\<rparr>))"

text \<open>Storing the delivered bytes at \<^verbatim>\<open>str + off\<close>; \<open>None\<close> when they do not fit.\<close>

definition poke :: "byte list \<Rightarrow> nat \<Rightarrow> byte list \<Rightarrow> byte list option" where
  "poke s off bs =
     (if off + length bs \<le> length s then Some (take off s @ bs @ drop (off + length bs) s)
      else None)"

text \<open>
  The \<^verbatim>\<open>while (total < len)\<close> loop. It need not terminate, so it is a partial function:
  \<open>None\<close> is a call that never returns. \<^verbatim>\<open>if (n == -1) { break; }\<close> leaves the loop
  with the count so far. The region \<^verbatim>\<open>str+total\<close>, \<open>rem\<close> bytes long, that is handed
  to the system call must lie inside the array.
\<close>

partial_function (option) sendrecv_loop ::
  "conn \<Rightarrow> byte list \<Rightarrow> int \<Rightarrow> bool \<Rightarrow> int \<Rightarrow> int \<Rightarrow> (fault + int \<times> byte list \<times> conn) option"
where
  "sendrecv_loop c str len sendMode total' rem =
     (if total' < len then
        (if total' < 0 \<or> rem < 0 \<or> int (length str) < total' + rem then Some (Inl OutOfBounds)
         else if sendMode then
           (case sys_send c (take (nat rem) (drop (nat total') str)) rem of
              (n, c') \<Rightarrow>
                if n = - 1 then Some (Inr (total', str, c'))
                else sendrecv_loop c' str len sendMode (total' + n) (rem - n))
         else
           (case sys_recv c rem of
              (n, got, c') \<Rightarrow>
                if n = - 1 then Some (Inr (total', str, c'))
                else (case poke str (nat total') got of
                        None \<Rightarrow> Some (Inl OutOfBounds)
                      | Some str' \<Rightarrow> sendrecv_loop c' str' len sendMode (total' + n) (rem - n))))
      else Some (Inr (total', str, c)))"

declare sendrecv_loop.simps [code]

text \<open>\<^verbatim>\<open>int sendrecv(int sockFD, char* str, int len, bool sendMode)\<close>: the count returned,
  the array \<open>str\<close> and the socket afterwards.\<close>

definition sendrecv ::
  "conn \<Rightarrow> byte list \<Rightarrow> int \<Rightarrow> bool \<Rightarrow> (fault + int \<times> byte list \<times> conn) option"
where
  "sendrecv c str len sendMode =
     (if sendMode then sendrecv_loop c str len sendMode 0 len
      else (case memset str 0 (len + 1) of
              None \<Rightarrow> Some (Inl OutOfBounds)
            | Some str0 \<Rightarrow> sendrecv_loop c str0 len sendMode 0 len))"

text \<open>What POSIX promises of \<^verbatim>\<open>send\<close> and \<^verbatim>\<open>recv\<close>: asked for \<open>n \<ge> 0\<close> bytes,
  the result is -1 or a count between 0 and \<open>n\<close>.\<close>

definition posix :: "(nat \<Rightarrow> int \<Rightarrow> int) \<Rightarrow> bool" where
  "posix r = (\<forall>k n. n < 0 \<or> r k n = - 1 \<or> (0 \<le> r k n \<and> r k n \<le> n))"

text \<open>A connection on which every call asked for at least one byte either fails or moves
  at least one byte, and one on which it always moves at least one byte (unbroken, with
  data enough).\<close>

definition progressing :: "(nat \<Rightarrow> int \<Rightarrow> int) \<Rightarrow> bool" where
  "progressing r = (\<forall>k n. n \<le> 0 \<or> r k n = - 1 \<or> (1 \<le> r k n \<and> r k n \<le> n))"

definition unbroken :: "(nat \<Rightarrow> int \<Rightarrow> int) \<Rightarrow> bool" where
  "unbroken r = (\<forall>k n. n \<le> 0 \<or> (1 \<le> r k n \<and> r k n \<le> n))"

text \<open>
  What a returning run of the loop has done, from the loop state \<open>(c, str, t)\<close> to the
  result \<open>(n, s', c')\<close>: in send mode the bytes \<open>str[t..n)\<close> went to the peer and the array
  is untouched; in receive mode the next \<open>n - t\<close> inbound bytes were stored at
  \<open>str[t..n)\<close> and the rest of the array is untouched.
\<close>

definition loop_post ::
  "conn \<Rightarrow> byte list \<Rightarrow> int \<Rightarrow> bool \<Rightarrow> int \<Rightarrow> int \<times> byte list \<times> conn \<Rightarrow> bool"
where
  "loop_post c str len sendMode t res =
     (case res of (n, s', c') \<Rightarrow>
        t \<le> n \<and> n \<le> len \<and> ret c' = ret c \<and> inbound c' = inbound c \<and> calls c \<le> calls c' \<and>
        (if sendMode then
           s' = str \<and> taken c' = taken c \<and>
           sent c' = sent c @ take (nat (n - t)) (drop (nat t) str)
         else
           sent c' = sent c \<and> taken c' = taken c + nat (n - t) \<and>
           s' = take (nat t) str @ map (inbound c) [taken c ..< taken c + nat (n - t)]
                  @ drop (nat n) str))"

text \<open>A loop state from which a receive never returns: the transfer is incomplete and
  every further call returns 0, which is how \<^verbatim>\<open>recv\<close> reports that the peer has closed
  the connection.\<close>

definition stuck :: "conn \<Rightarrow> byte list \<Rightarrow> int \<Rightarrow> bool \<Rightarrow> int \<Rightarrow> int \<Rightarrow> bool" where
  "stuck c str len sendMode t r =
     (\<not> sendMode \<and> t < len \<and> 0 \<le> t \<and> 0 \<le> r \<and> t + r \<le> int (length str) \<and>
      (\<forall>k n. k < calls c \<or> ret c k n = 0))"

text \<open>The truncated buffer: an array of \<open>sz\<close> bytes after a receive on the socket \<open>c\<close>
  that returned \<open>n\<close>. It holds the \<open>n\<close> bytes that arrived, then the NULs that
  \<^verbatim>\<open>sendrecv\<close> stored before it began.\<close>

definition received :: "conn \<Rightarrow> int \<Rightarrow> int \<Rightarrow> byte list" where
  "received c n sz = map (inbound c) [taken c ..< taken c + nat n] @ replicate (nat (sz - n)) 0"

text \<open>A socket at its start, with a given behaviour and a given inbound stream (zeros
  after its end).\<close>

definition feed :: "byte list \<Rightarrow> nat \<Rightarrow> byte" where
  "feed bs i = (if i < length bs then bs ! i else 0)"

definition conn_of :: "(nat \<Rightarrow> int \<Rightarrow> int) \<Rightarrow> byte list \<Rightarrow> conn" where
  "conn_of r bs = \<lparr>ret = r, inbound = feed bs, calls = 0, taken = 0, sent = []\<rparr>"

text \<open>A peer that sends the three bytes \<^verbatim>\<open>otp\<close> and closes the connection: the first
  \<^verbatim>\<open>recv\<close> delivers them, every later one returns 0.\<close>

definition conn_eof :: conn where
  "conn_eof = conn_of (\<lambda>k n. if k = 0 then min n 3 else 0) (bytes_of ''otp'')"

subsection \<open>Definitions: C library functions the two mains use\<close>

text \<open>The C string held in an array: the bytes before the first NUL.\<close>

definition c_str :: "byte list \<Rightarrow> byte list" where
  "c_str s = takeWhile (\<lambda>b. b \<noteq> 0) s"

text \<open>\<^verbatim>\<open>strcpy(dst, s)\<close> for a string constant \<open>s\<close> that fits: the bytes and their terminator.\<close>

definition strcpy :: "byte list \<Rightarrow> string \<Rightarrow> byte list" where
  "strcpy dst s = bytes_of s @ [0] @ drop (length s + 1) dst"

text \<open>\<^verbatim>\<open>%d\<close> of \<^verbatim>\<open>printf\<close>.\<close>

function show_digits :: "int \<Rightarrow> string" where
  "show_digits n =
     (if n < 10 then [''0123456789'' ! nat n]
      else show_digits (n div 10) @ [''0123456789'' ! nat (n mod 10)])"
  by pat_completeness auto
termination
  by (relation "measure nat") auto

declare show_digits.simps [simp del]

definition show_int :: "int \<Rightarrow> string" where
  "show_int i = (if i < 0 then CHR ''-'' # show_digits (- i) else show_digits i)"

text \<open>\<^verbatim>\<open>atoi(s)\<close> is \<^verbatim>\<open>(int) strtol(s, NULL, 10)\<close>. \<^verbatim>\<open>strtol\<close> skips white space,
  takes an optional sign and then decimal digits up to the first byte that is not one (the
  terminator at the latest); a value outside the 64 bits of a \<^verbatim>\<open>long\<close> becomes
  \<^verbatim>\<open>LONG_MAX\<close> or \<^verbatim>\<open>LONG_MIN\<close>. The cast to \<^verbatim>\<open>int\<close> keeps the low 32 bits, read as
  two's complement: the text \<^verbatim>\<open>4295018296\<close> (\<open>2 ^ 32 + 51000\<close>) is the \<^verbatim>\<open>int\<close> 51000.\<close>

definition isspace :: "byte \<Rightarrow> bool" where
  "isspace c = (c = 0x20 \<or> (0x09 \<le> c \<and> c \<le> 0x0D))"

definition isdigit :: "byte \<Rightarrow> bool" where
  "isdigit c = (0x30 \<le> c \<and> c \<le> 0x39)"

fun atoi_digits :: "int \<Rightarrow> byte list \<Rightarrow> int" where
  "atoi_digits acc [] = acc"
| "atoi_digits acc (c # cs) = (if isdigit c then atoi_digits (acc * 10 + (uint c - 48)) cs else acc)"

definition strtol :: "byte list \<Rightarrow> int" where
  "strtol s =
     (let v = (case dropWhile isspace s of
                 [] \<Rightarrow> 0
               | c # cs \<Rightarrow>
                   if c = 0x2D then - atoi_digits 0 cs
                   else if c = 0x2B then atoi_digits 0 cs
                   else atoi_digits 0 (c # cs))
      in max (- (2 ^ 63)) (min (2 ^ 63 - 1) v))"

definition atoi :: "byte list \<Rightarrow> int" where
  "atoi s = sint (word_of_int (strtol s) :: 32 word)"

text \<open>\<^verbatim>\<open>snprintf(buf, size, "%d", v)\<close> into an array that was cleared before: at most
  \<open>size - 1\<close> characters and the terminator.\<close>

definition snprintf_d :: "byte list \<Rightarrow> nat \<Rightarrow> int \<Rightarrow> byte list" where
  "snprintf_d buf sz v =
     (let s = take (sz - 1) (bytes_of (show_int v)) in s @ [0] @ drop (length s + 1) buf)"

text \<open>A local array that has not been written yet holds whatever the stack holds.\<close>

definition uninit :: "(nat \<Rightarrow> byte) \<Rightarrow> int \<Rightarrow> byte list" where
  "uninit junk n = map junk [0 ..< nat n]"

text \<open>
  A variable-length array \<^verbatim>\<open>char a[n]\<close>, followed by the rest of the program \<open>k\<close>. The
  array is taken from the stack, of which \<open>room\<close> bytes are left; \<open>k\<close> gets the array and
  the room left after it. A negative size is undefined; a size beyond the room left runs
  off the stack; for the size 0 the compiler makes an array of no bytes. A stack is far
  smaller than \<open>2 ^ 31\<close> bytes, so a size \<^verbatim>\<open>len+1\<close> that does not fit an \<^verbatim>\<open>int\<close> does
  not fit the stack either.
\<close>

definition vla ::
  "int \<Rightarrow> (nat \<Rightarrow> byte) \<Rightarrow> int \<Rightarrow> (byte list \<Rightarrow> int \<Rightarrow> (fault + 'a) option) \<Rightarrow> (fault + 'a) option"
where
  "vla room junk n k =
     (if n < 0 then Some (Inl OutOfBounds)
      else if room < n then Some (Inl StackOverflow)
      else k (uninit junk n) (room - n))"

subsection \<open>Definitions: what a process does\<close>

datatype fd = ListeningFD | ConnectedFD | SockFD

text \<open>What a process does that can be seen from outside, in order: a line on standard
  error or standard output (without its newline), the \<^verbatim>\<open>printf("%s\n", ...)\<close> of an
  array, the calls \<^verbatim>\<open>socket\<close> and \<^verbatim>\<open>connect\<close>, a call of \<^verbatim>\<open>sendrecv\<close> with its mode,
  the length asked for and the count returned, and \<^verbatim>\<open>close\<close>.\<close>

datatype event =
    Stderr string
  | Stdout string
  | Print "byte list"
  | SocketCall
  | ConnectCall
  | Xfer bool int int
  | CloseFd fd

text \<open>A finished process: its exit status, what it did, and its socket at the end.\<close>

record run =
  status :: int
  trace :: "event list"
  sock :: conn

text \<open>
  The statement both mains repeat at every transfer,
  \<^verbatim>\<open>if ((chars = sendrecv(fd, str, len, mode)) != len) { fprintf(stderr, msg, chars, port); }\<close>,
  followed by the rest of the program \<open>k\<close>, which goes on with the array as the call
  left it.
\<close>

definition report :: "bool \<Rightarrow> int \<Rightarrow> int \<Rightarrow> (int \<Rightarrow> string) \<Rightarrow> event list" where
  "report sendMode len chars msg =
     Xfer sendMode len chars # (if chars \<noteq> len then [Stderr (msg chars)] else [])"

definition checked_sendrecv ::
  "run \<Rightarrow> byte list \<Rightarrow> int \<Rightarrow> bool \<Rightarrow> (int \<Rightarrow> string) \<Rightarrow>
     (byte list \<Rightarrow> run \<Rightarrow> (fault + run) option) \<Rightarrow> (fault + run) option"
where
  "checked_sendrecv p str len sendMode msg k =
     (case sendrecv (sock p) str len sendMode of
        None \<Rightarrow> None
      | Some (Inl e) \<Rightarrow> Some (Inl e)
      | Some (Inr (chars, str', c')) \<Rightarrow>
          k str' (p\<lparr>trace := trace p @ report sendMode len chars msg, sock := c'\<rparr>))"

subsection \<open>Definitions: the child process of the daemon (otp\_enc\_d.c, lines 99-167)\<close>

definition enc_d_received :: "int \<Rightarrow> int \<Rightarrow> string" where
  "enc_d_received port chars =
     ''otp_enc_d: ERROR, only '' @ show_int chars
       @ '' chars were received from client on port '' @ show_int port"

definition enc_d_sent :: "int \<Rightarrow> int \<Rightarrow> string" where
  "enc_d_sent port chars =
     ''otp_enc_d: ERROR, only '' @ show_int chars
       @ '' chars were sent to client on port '' @ show_int port"

text \<open>\<^verbatim>\<open>close(listeningFD); close(connectedFD); exit(0);\<close>\<close>

definition enc_d_exit :: "run \<Rightarrow> (fault + run) option" where
  "enc_d_exit p =
     Some (Inr (p\<lparr>status := 0, trace := trace p @ [CloseFd ListeningFD, CloseFd ConnectedFD]\<rparr>))"

text \<open>
  The branch \<^verbatim>\<open>pid == 0\<close> of the accept loop, for the connection \<open>c\<close> just accepted.
  \<^verbatim>\<open>DEBUG\<close> is the constant \<^verbatim>\<open>false\<close>, so the debug output is left out. \<open>room\<close> is the
  stack left for the three arrays whose sizes come from the peer's length fields.
\<close>

definition enc_d_child :: "int \<Rightarrow> (nat \<Rightarrow> byte) \<Rightarrow> int \<Rightarrow> conn \<Rightarrow> (fault + run) option" where
  "enc_d_child port junk room c =
     checked_sendrecv \<lparr>status = 0, trace = [], sock = c\<rparr> (uninit junk 8) 7 False
       (enc_d_received port)
       (\<lambda>id p1.
     let auth0 = replicate 5 0;
         auth = (if c_str id = bytes_of ''otp_enc'' then strcpy auth0 ''PASS''
                 else strcpy auth0 ''FAIL'')
     in
     checked_sendrecv p1 auth 4 True (enc_d_sent port)
       (\<lambda>auth p2.
     if c_str auth = bytes_of ''PASS'' then
       checked_sendrecv p2 (uninit junk 10) 9 False (enc_d_received port)
         (\<lambda>textLenBuf p3.
       let textLen = atoi textLenBuf in
       vla room junk (textLen + 1)
         (\<lambda>plaintext room1.
       checked_sendrecv p3 plaintext textLen False (enc_d_received port)
         (\<lambda>plaintext p4.
       checked_sendrecv p4 (uninit junk 10) 9 False (enc_d_received port)
         (\<lambda>keyLenBuf p5.
       let keyLen = atoi keyLenBuf in
       vla room1 junk (keyLen + 1)
         (\<lambda>key room2.
       checked_sendrecv p5 key keyLen False (enc_d_received port)
         (\<lambda>key p6.
       vla room2 junk (textLen + 1)
         (\<lambda>ciphertext room3.
       case encrypt plaintext key ciphertext textLen of
         None \<Rightarrow> Some (Inl OutOfBounds)
       | Some b \<Rightarrow>
           checked_sendrecv p6 (cipher b) textLen True (enc_d_sent port)
             (\<lambda>ciphertext p7. enc_d_exit p7))))))))
     else enc_d_exit p2))"

subsection \<open>Definitions: the client (otp\_dec.c)\<close>

text \<open>What the client finds around it: the files by name (\<open>None\<close> when \<^verbatim>\<open>fopen\<close>
  fails), whether \<^verbatim>\<open>gethostbyname\<close>, \<^verbatim>\<open>socket\<close> and \<^verbatim>\<open>connect\<close> succeed, what the
  stack holds, how much of it is left for the three arrays whose sizes come from the files,
  and the connection it gets.\<close>

record world =
  files :: "string \<Rightarrow> byte list option"
  host_ok :: bool
  socket_ok :: bool
  connect_ok :: bool
  stack :: "nat \<Rightarrow> byte"
  stack_room :: int
  net :: conn

definition quoted :: "string \<Rightarrow> string" where
  "quoted s = [CHR 0x27] @ s @ [CHR 0x27]"

text \<open>\<^verbatim>\<open>c = fgetc(fd)\<close> with \<^verbatim>\<open>char c\<close>: the byte at the read position, or \<^verbatim>\<open>EOF\<close> (-1)
  cut to a \<^verbatim>\<open>char\<close> at the end of the file.\<close>

definition fgetc :: "byte list \<Rightarrow> nat \<Rightarrow> byte" where
  "fgetc f pos = (if pos < length f then f ! pos else word_of_int (- 1))"

text \<open>The test of \<^verbatim>\<open>scanfile\<close>, \<^verbatim>\<open>c == ' ' || (c >= 'A' || c <= 'Z')\<close>, as it is written.\<close>

definition scan_ok :: "byte \<Rightarrow> bool" where
  "scan_ok c = (c = 0x20 \<or> (65 \<le> sint c \<or> sint c \<le> 90))"

text \<open>\<^verbatim>\<open>fprintf(stderr, ...); exit(1);\<close> inside a function, as a value: the line and the
  status.\<close>

type_synonym fatal = "string \<times> int"

text \<open>The \<^verbatim>\<open>while ((c = fgetc(fd)) != '\n')\<close> loop of \<^verbatim>\<open>scanfile\<close>. It does not terminate
  on a file without a newline (every read past the end yields the same \<^verbatim>\<open>char\<close>).\<close>

partial_function (option) scanfile_loop ::
  "string \<Rightarrow> byte list \<Rightarrow> nat \<Rightarrow> int \<Rightarrow> (fatal + int) option"
where
  "scanfile_loop filename f pos length' =
     (let c = fgetc f pos in
      if c \<noteq> 0x0A then
        (if scan_ok c then scanfile_loop filename f (pos + 1) (length' + 1)
         else Some (Inl (''otp_dec: ERROR, '' @ quoted filename @ '' contains bad characters'', 1)))
      else Some (Inr length'))"

declare scanfile_loop.simps [code]

definition scanfile :: "world \<Rightarrow> string \<Rightarrow> (fatal + int) option" where
  "scanfile w filename =
     (case files w filename of
        None \<Rightarrow> Some (Inl (''otp_dec: ERROR, opening file '' @ quoted filename, 1))
      | Some f \<Rightarrow> scanfile_loop filename f 0 0)"

text \<open>\<^verbatim>\<open>fgets(str, len, fd)\<close> on a freshly opened file: at most \<open>len - 1\<close> bytes, up to and
  with the first newline, then the terminator. Nothing is stored when \<open>len\<close> is not
  positive, or when the file is empty and \<open>len\<close> is more than 1.\<close>

definition fgets :: "byte list \<Rightarrow> int \<Rightarrow> byte list \<Rightarrow> byte list" where
  "fgets str len f =
     (if len \<le> 0 then str
      else
        let line = takeWhile (\<lambda>b. b \<noteq> 0x0A) f;
            got = take (nat (len - 1)) (line @ take 1 (drop (length line) f))
        in if got = [] \<and> 1 < len then str else got @ [0] @ drop (length got + 1) str)"

definition readfile :: "world \<Rightarrow> string \<Rightarrow> byte list \<Rightarrow> int \<Rightarrow> fault + fatal + byte list" where
  "readfile w filename str len =
     (case memset str 0 len of
        None \<Rightarrow> Inl OutOfBounds
      | Some str0 \<Rightarrow>
          (case files w filename of
             None \<Rightarrow> Inr (Inl (''otp_dec: ERROR, opening file '' @ quoted filename, 1))
           | Some f \<Rightarrow> Inr (Inr (fgets str0 len f))))"

definition dec_short :: "string \<Rightarrow> string \<Rightarrow> int \<Rightarrow> int \<Rightarrow> string" where
  "dec_short what moved port chars =
     ''otp_dec: ERROR, only '' @ show_int chars @ '' chars of '' @ what @ '' were '' @ moved
       @ '' server on port '' @ show_int port"

text \<open>\<^verbatim>\<open>exit(code)\<close> after the events \<open>es\<close>.\<close>

definition die :: "run \<Rightarrow> event list \<Rightarrow> int \<Rightarrow> (fault + run) option" where
  "die p es code = Some (Inr (p\<lparr>status := code, trace := trace p @ es\<rparr>))"

text \<open>Lines 107-166 of \<^verbatim>\<open>main\<close>: the exchange on the connected socket. \<open>room\<close> is the
  stack left after the arrays of the text and of the key.\<close>

definition otp_dec_session ::
  "int \<Rightarrow> (nat \<Rightarrow> byte) \<Rightarrow> int \<Rightarrow> byte list \<Rightarrow> byte list \<Rightarrow> int \<Rightarrow> int \<Rightarrow> run \<Rightarrow>
     (fault + run) option"
where
  "otp_dec_session port junk room ciphertext key' textLen keyLen p =
     checked_sendrecv p (bytes_of ''otp_dec'' @ [0]) 7 True (dec_short ''id'' ''sent to'' port)
       (\<lambda>id p1.
     checked_sendrecv p1 (uninit junk 5) 4 False (dec_short ''auth'' ''received from'' port)
       (\<lambda>auth p2.
     if c_str auth \<noteq> bytes_of ''PASS'' then
       die p2 [Stderr (''otp_dec: ERROR, could not contact or authenticate with otp_dec_d on port ''
                        @ show_int port)] 2
     else
       checked_sendrecv p2 (snprintf_d (replicate 10 0) 10 textLen) 9 True
         (dec_short ''textLen'' ''sent to'' port)
         (\<lambda>textLenBuf p3.
       checked_sendrecv p3 ciphertext textLen True (dec_short ''ciphertext'' ''sent to'' port)
         (\<lambda>ciphertext p4.
       checked_sendrecv p4 (snprintf_d (replicate 10 0) 10 keyLen) 9 True
         (dec_short ''keyLen'' ''sent to'' port)
         (\<lambda>keyLenBuf p5.
       checked_sendrecv p5 key' keyLen True (dec_short ''key'' ''sent to'' port)
         (\<lambda>key' p6.
       vla room junk (textLen + 1)
         (\<lambda>plaintext room1.
       checked_sendrecv p6 plaintext textLen False
         (dec_short ''encryption'' ''recevied from'' port)
         (\<lambda>plaintext p7.
       Some (Inr (p7\<lparr>status := 0,
                     trace := trace p7 @ [Print (c_str plaintext), CloseFd SockFD]\<rparr>))))))))))"

text \<open>Lines 83-104 of \<^verbatim>\<open>main\<close>: the host, the socket and the connection.\<close>

definition otp_dec_connect ::
  "world \<Rightarrow> int \<Rightarrow> int \<Rightarrow> byte list \<Rightarrow> byte list \<Rightarrow> int \<Rightarrow> int \<Rightarrow> run \<Rightarrow> (fault + run) option"
where
  "otp_dec_connect w port room ciphertext key' textLen keyLen p =
     (if \<not> host_ok w then die p [Stderr ''otp_dec: ERROR, no such host''] 2
      else if \<not> socket_ok w then die p [SocketCall, Stderr ''otp_dec: ERROR opening socket''] 2
      else if \<not> connect_ok w then
        die p [SocketCall, ConnectCall, Stderr ''otp_dec: ERROR connecting''] 2
      else otp_dec_session port (stack w) room ciphertext key' textLen keyLen
             (p\<lparr>trace := trace p @ [SocketCall, ConnectCall]\<rparr>))"

text \<open>\<^verbatim>\<open>argv[0]\<close> for the usage line.\<close>

definition prog_name :: "string list \<Rightarrow> string" where
  "prog_name argv = (case argv of [] \<Rightarrow> ''(null)'' | a # _ \<Rightarrow> a)"

text \<open>\<^verbatim>\<open>int main(int argc, char *argv[])\<close> of the client. Lines 58-81 check the arguments
  and the two files and read them.\<close>

definition otp_dec_main :: "string list \<Rightarrow> world \<Rightarrow> (fault + run) option" where
  "otp_dec_main argv w =
     (let p0 = \<lparr>status = 0, trace = [], sock = net w\<rparr> in
      if int (length argv) \<noteq> 4 then
        die p0 [Stderr (''USAGE: '' @ prog_name argv @ '' <ciphertext> <key> <port>'')] 1
      else
        let port = atoi (bytes_of (argv ! 3)) in
        if port < 0 \<or> port > 65535 then
          die p0 [Stderr (''otp_dec: ERROR, invalid port '' @ show_int port)] 2
        else
          let p1 = (if port < 50000 then
                      p0\<lparr>trace := [Stdout ''otp_dec: WARNING, recommended to use a port number above 50000'']\<rparr>
                    else p0)
          in
          (case scanfile w (argv ! 1) of
             None \<Rightarrow> None
           | Some (Inl (msg, code)) \<Rightarrow> die p1 [Stderr msg] code
           | Some (Inr textLen) \<Rightarrow>
               if textLen < 1 then
                 die p1 [Stderr ''otp_dec: ERROR, ciphertext file cannot be empty''] 1
               else
                 (case scanfile w (argv ! 2) of
                    None \<Rightarrow> None
                  | Some (Inl (msg, code)) \<Rightarrow> die p1 [Stderr msg] code
                  | Some (Inr keyLen) \<Rightarrow>
                      if keyLen < 1 then
                        die p1 [Stderr ''otp_dec: ERROR, key file cannot be empty''] 1
                      else if keyLen < textLen then
                        die p1 [Stderr (''otp_dec: ERROR, key '' @ quoted (argv ! 2)
                                         @ '' is too short'')] 1
                      else
                        vla (stack_room w) (stack w) (textLen + 1)
                          (\<lambda>ciphertext room1.
                        case readfile w (argv ! 1) ciphertext (textLen + 1) of
                          Inl e \<Rightarrow> Some (Inl e)
                        | Inr (Inl (msg, code)) \<Rightarrow> die p1 [Stderr msg] code
                        | Inr (Inr ciphertext) \<Rightarrow>
                            vla room1 (stack w) (keyLen + 1)
                              (\<lambda>key' room2.
                            case readfile w (argv ! 2) key' (keyLen + 1) of
                              Inl e \<Rightarrow> Some (Inl e)
                            | Inr (Inl (msg, code)) \<Rightarrow> die p1 [Stderr msg] code
                            | Inr (Inr key') \<Rightarrow>
                                otp_dec_connect w port room2 ciphertext key' textLen keyLen p1)))))"

subsection \<open>Definitions: the connections and files of the examples\<close>

text \<open>A daemon's socket whose peer presents the token of the decryption client.\<close>

definition conn_wrong_id :: conn where
  "conn_wrong_id = conn_of (\<lambda>k n. n) (bytes_of ''otp_dec'')"

text \<open>A client that has just connected: \<^verbatim>\<open>socket\<close> and \<^verbatim>\<open>connect\<close> have been called.\<close>

definition run_connected :: "conn \<Rightarrow> run" where
  "run_connected c = \<lparr>status = 0, trace = [SocketCall, ConnectCall], sock = c\<rparr>"

text \<open>A daemon's socket whose peer sends a correct exchange (text \<^verbatim>\<open>"A B"\<close>, key
  \<^verbatim>\<open>"XYZVW"\<close>); the receive of the key is cut short after 4 of its 5 bytes by an error.\<close>

definition conn_short_key :: conn where
  "conn_short_key =
     conn_of (\<lambda>k n. if k = 5 then min n 4 else if k = 6 then - 1 else n)
       (bytes_of ''otp_enc3'' @ replicate 8 0 @ bytes_of ''A B5'' @ replicate 8 0
          @ bytes_of ''XYZVW'')"

text \<open>A client's socket on which the sending of the ciphertext is cut short after 2 bytes.\<close>

definition conn_short_text :: conn where
  "conn_short_text =
     conn_of (\<lambda>k n. if k = 3 then min n 2 else if k = 4 then - 1 else n) (bytes_of ''PASSHELLO'')"

text \<open>A daemon's socket on which the receive of the token is cut short after 6 of its 7
  bytes, and a client's socket on which the receive of the admission result is cut short
  after 2 of its 4 bytes.\<close>

definition conn_short_token :: conn where
  "conn_short_token =
     conn_of (\<lambda>k n. if k = 0 then min n 6 else if k = 1 then - 1 else n) (bytes_of ''otp_enc'')"


text \<open>A daemon's socket whose peer sends the same exchange as for \<open>conn_short_key\<close>;
  here the receive of the text is cut short after 2 of its 3 bytes by an error, and the
  calls after it deliver the rest of the stream.\<close>

definition conn_out_of_step :: conn where
  "conn_out_of_step =
     conn_of (\<lambda>k n. if k = 3 then min n 2 else if k = 4 then - 1 else n)
       (bytes_of ''otp_enc3'' @ replicate 8 0 @ bytes_of ''A B5'' @ replicate 8 0
          @ bytes_of ''XYZVW'')"

text \<open>A daemon's socket whose peer announces a text of 999999999 bytes.\<close>

definition conn_huge_length :: conn where
  "conn_huge_length = conn_of (\<lambda>k n. n) (bytes_of ''otp_enc999999999'')"

text \<open>A daemon's socket whose peer announces the text length \<^verbatim>\<open>-1\<close> and the key
  length \<^verbatim>\<open>0\<close>.\<close>

definition conn_negative_length :: conn where
  "conn_negative_length =
     conn_of (\<lambda>k n. n) (bytes_of ''otp_enc-1'' @ replicate 7 0 @ bytes_of ''0'' @ replicate 8 0)"

text \<open>A key file of three symbols for a text of five.\<close>

definition world_short_key :: world where
  "world_short_key =
     \<lparr>files = map_of [(''ciphertext'', bytes_of ''CSBWR'' @ [0x0A]), (''key'', bytes_of ''WOR'' @ [0x0A])],
      host_ok = True, socket_ok = True, connect_ok = True, stack = (\<lambda>_. 0x55),
      stack_room = 8388608,
      net = conn_of (\<lambda>k n. n) (bytes_of ''PASSHELLO'')\<rparr>"


text \<open>A text file with lowercase letters, a key that is long enough, and no daemon
  listening (\<^verbatim>\<open>connect\<close> fails).\<close>

definition world_lowercase :: world where
  "world_lowercase =
     \<lparr>files = map_of [(''plaintext'', bytes_of ''hello'' @ [0x0A]),
                      (''key'', bytes_of ''WORLDS'' @ [0x0A])],
      host_ok = True, socket_ok = True, connect_ok = False, stack = (\<lambda>_. 0x55),
      stack_room = 8388608,
      net = conn_of (\<lambda>k n. n) []\<rparr>"

section \<open>Properties of \<^verbatim>\<open>encrypt\<close>\<close>

lemma encrypt_body_eq:
  assumes "i < length (plain b)" "i < length (key b)" "i < length (cipher b)"
  shows "encrypt_body i b =
     Some \<lparr>plain = (plain b)[i := despace (plain b ! i)],
           key = (key b)[i := despace (key b ! i)],
           cipher = (cipher b)[i := enc_byte (plain b ! i) (key b ! i)]\<rparr>"
  using assms by (simp add: encrypt_body_def despace_def enc_byte_def Let_def list_update_same_conv)

lemma encrypt_loop_spec:
  assumes "0 \<le> i" "len \<le> int (length (plain b))" "len \<le> int (length (key b))"
    "len \<le> int (length (cipher b))"
  shows "\<exists>b'. encrypt_loop i len b = Some b' \<and>
     length (plain b') = length (plain b) \<and> length (key b') = length (key b) \<and>
     length (cipher b') = length (cipher b) \<and>
     (\<forall>j < length (plain b). plain b' ! j =
        (if i \<le> int j \<and> int j < len then despace (plain b ! j) else plain b ! j)) \<and>
     (\<forall>j < length (key b). key b' ! j =
        (if i \<le> int j \<and> int j < len then despace (key b ! j) else key b ! j)) \<and>
     (\<forall>j < length (cipher b). cipher b' ! j =
        (if i \<le> int j \<and> int j < len then enc_byte (plain b ! j) (key b ! j) else cipher b ! j))"
  using assms
proof (induction i len b rule: encrypt_loop.induct)
  case (1 i len b)
  show ?case
  proof (cases "i < len")
    case False
    then show ?thesis by (subst encrypt_loop.simps) auto
  next
    case True
    let ?n = "nat i"
    let ?b1 = "\<lparr>plain = (plain b)[?n := despace (plain b ! ?n)],
           key = (key b)[?n := despace (key b ! ?n)],
           cipher = (cipher b)[?n := enc_byte (plain b ! ?n) (key b ! ?n)]\<rparr>"
    from True "1.prems"
    have inb: "?n < length (plain b)" "?n < length (key b)" "?n < length (cipher b)"
      by auto
    then have body: "encrypt_body ?n b = Some ?b1" by (rule encrypt_body_eq)
    have "\<exists>b'. encrypt_loop (i + 1) len ?b1 = Some b' \<and>
     length (plain b') = length (plain ?b1) \<and> length (key b') = length (key ?b1) \<and>
     length (cipher b') = length (cipher ?b1) \<and>
     (\<forall>j < length (plain ?b1). plain b' ! j =
        (if i + 1 \<le> int j \<and> int j < len then despace (plain ?b1 ! j) else plain ?b1 ! j)) \<and>
     (\<forall>j < length (key ?b1). key b' ! j =
        (if i + 1 \<le> int j \<and> int j < len then despace (key ?b1 ! j) else key ?b1 ! j)) \<and>
     (\<forall>j < length (cipher ?b1). cipher b' ! j =
        (if i + 1 \<le> int j \<and> int j < len then enc_byte (plain ?b1 ! j) (key ?b1 ! j)
         else cipher ?b1 ! j))"
      using "1.IH"[OF True body] "1.prems" by simp
    then obtain b' where b': "encrypt_loop (i + 1) len ?b1 = Some b'"
      "length (plain b') = length (plain b)" "length (key b') = length (key b)"
      "length (cipher b') = length (cipher b)"
      "\<And>j. j < length (plain b) \<Longrightarrow> plain b' ! j =
        (if i + 1 \<le> int j \<and> int j < len then despace (plain ?b1 ! j) else plain ?b1 ! j)"
      "\<And>j. j < length (key b) \<Longrightarrow> key b' ! j =
        (if i + 1 \<le> int j \<and> int j < len then despace (key ?b1 ! j) else key ?b1 ! j)"
      "\<And>j. j < length (cipher b) \<Longrightarrow> cipher b' ! j =
        (if i + 1 \<le> int j \<and> int j < len then enc_byte (plain ?b1 ! j) (key ?b1 ! j)
         else cipher ?b1 ! j)"
      by auto
    have loop: "encrypt_loop i len b = Some b'"
      using True body b'(1) by (subst encrypt_loop.simps) simp
    have i0: "0 \<le> i" using "1.prems" by simp
    have P: "\<forall>j < length (plain b). plain b' ! j =
        (if i \<le> int j \<and> int j < len then despace (plain b ! j) else plain b ! j)"
    proof (intro allI impI)
      fix j assume j: "j < length (plain b)"
      show "plain b' ! j =
        (if i \<le> int j \<and> int j < len then despace (plain b ! j) else plain b ! j)"
      proof (cases "j = ?n")
        case True
        then show ?thesis using b'(5)[OF j] j i0 \<open>i < len\<close> by simp
      next
        case False
        then have "(i + 1 \<le> int j) = (i \<le> int j)" using i0 by auto
        then show ?thesis using b'(5)[OF j] j False by simp
      qed
    qed
    have K: "\<forall>j < length (key b). key b' ! j =
        (if i \<le> int j \<and> int j < len then despace (key b ! j) else key b ! j)"
    proof (intro allI impI)
      fix j assume j: "j < length (key b)"
      show "key b' ! j =
        (if i \<le> int j \<and> int j < len then despace (key b ! j) else key b ! j)"
      proof (cases "j = ?n")
        case True
        then show ?thesis using b'(6)[OF j] j i0 \<open>i < len\<close> by simp
      next
        case False
        then have "(i + 1 \<le> int j) = (i \<le> int j)" using i0 by auto
        then show ?thesis using b'(6)[OF j] j False by simp
      qed
    qed
    have C: "\<forall>j < length (cipher b). cipher b' ! j =
        (if i \<le> int j \<and> int j < len then enc_byte (plain b ! j) (key b ! j) else cipher b ! j)"
    proof (intro allI impI)
      fix j assume j: "j < length (cipher b)"
      show "cipher b' ! j =
        (if i \<le> int j \<and> int j < len then enc_byte (plain b ! j) (key b ! j) else cipher b ! j)"
      proof (cases "j = ?n")
        case True
        then show ?thesis using b'(7)[OF j] j i0 \<open>i < len\<close> by simp
      next
        case False
        then have "(i + 1 \<le> int j) = (i \<le> int j)" using i0 by auto
        then show ?thesis using b'(7)[OF j] j False by simp
      qed
    qed
    show ?thesis using loop b'(2-4) P K C by blast
  qed
qed

lemma Sigma_sint:
  assumes "c \<in> Sigma"
  shows "c = 0x20 \<or> (65 \<le> sint c \<and> sint c \<le> 90)"
proof (cases "c = 0x20")
  case True then show ?thesis by simp
next
  case False
  with assms have "0x41 \<le> c" "c \<le> 0x5A" by (auto simp: Sigma_def)
  then have u: "65 \<le> uint c" "uint c \<le> 90" by (simp_all add: word_le_def)
  have "sint c = signed_take_bit 7 (uint c)" by (simp add: sint_uint)
  also have "\<dots> = uint c" using u by (intro signed_take_bit_int_eq_self) auto
  finally show ?thesis using u by simp
qed

lemma at_index_range: "c \<in> Sigma \<Longrightarrow> 0 \<le> at_index c \<and> at_index c \<le> 26"
  using Sigma_sint[of c] by (auto simp: at_index_def)

lemma despace_index: "c \<in> Sigma \<Longrightarrow> sint (despace c) - 64 = at_index c"
  by (auto simp: despace_def at_index_def)

lemma word_of_int_64_eq:
  assumes "0 \<le> m" "m < 27"
  shows "((word_of_int (m + 64) :: byte) = 0x40) = (m = 0)"
proof -
  have a: "(0x40 :: byte) = word_of_int 64" by simp
  have b: "take_bit 8 (m + 64) = m + 64" using assms by (intro take_bit_int_eq_self) auto
  have c: "take_bit 8 (64::int) = 64" by simp
  show ?thesis unfolding a word_of_int_eq_iff using b c by simp
qed

lemma enc_byte_at:
  assumes "p \<in> Sigma" "k \<in> Sigma"
  shows "enc_byte p k = at_symbol ((at_index p + at_index k) mod 27)"
proof -
  let ?m = "(at_index p + at_index k) mod 27"
  have nn: "0 \<le> at_index p + at_index k"
    using at_index_range[OF assms(1)] at_index_range[OF assms(2)] by simp
  then have sm: "(at_index p + at_index k) smod 27 = ?m"
    by (simp add: signed_modulo_int_def sgn_if)
  have r: "0 \<le> ?m" "?m < 27" by simp_all
  have w: "((word_of_int (?m + 64) :: byte) = 0x40) = (?m = 0)"
    using r by (rule word_of_int_64_eq)
  show ?thesis
    unfolding enc_byte_def despace_index[OF assms(1)] despace_index[OF assms(2)] sm Let_def
      at_symbol_def
    using w by simp
qed

lemma encrypt_result:
  assumes "0 \<le> n" "n \<le> int (length pb)" "n \<le> int (length kb)" "n + 1 \<le> int (length cb)"
  shows "\<exists>b. encrypt pb kb cb n = Some b \<and>
     plain b = map despace (take (nat n) pb) @ drop (nat n) pb \<and>
     key b = map despace (take (nat n) kb) @ drop (nat n) kb \<and>
     cipher b = map2 enc_byte (take (nat n) pb) (take (nat n) kb) @ [0] @ drop (nat n + 1) cb"
proof -
  let ?c0 = "replicate (nat (n + 1)) 0 @ drop (nat (n + 1)) cb"
  let ?b0 = "\<lparr>plain = pb, key = kb, cipher = ?c0\<rparr>"
  have ms: "memset cb 0 (n + 1) = Some ?c0" using assms by (simp add: memset_def)
  have lc: "length ?c0 = length cb" using assms by simp
  obtain b where b: "encrypt_loop 0 n ?b0 = Some b"
    "length (plain b) = length pb" "length (key b) = length kb" "length (cipher b) = length cb"
    "\<And>j. j < length pb \<Longrightarrow> plain b ! j = (if int j < n then despace (pb ! j) else pb ! j)"
    "\<And>j. j < length kb \<Longrightarrow> key b ! j = (if int j < n then despace (kb ! j) else kb ! j)"
    "\<And>j. j < length cb \<Longrightarrow> cipher b ! j = (if int j < n then enc_byte (pb ! j) (kb ! j) else ?c0 ! j)"
    using encrypt_loop_spec[of 0 n ?b0] assms lc by auto
  have e: "encrypt pb kb cb n = Some b" using ms b(1) by (simp add: encrypt_def)
  have P: "plain b = map despace (take (nat n) pb) @ drop (nat n) pb"
    using assms b(2) by (intro nth_equalityI) (auto simp: b(5) nth_append)
  have K: "key b = map despace (take (nat n) kb) @ drop (nat n) kb"
    using assms b(3) by (intro nth_equalityI) (auto simp: b(6) nth_append)
  have C: "cipher b = map2 enc_byte (take (nat n) pb) (take (nat n) kb) @ [0] @ drop (nat n + 1) cb"
  proof (intro nth_equalityI)
    show "length (cipher b) = length (map2 enc_byte (take (nat n) pb) (take (nat n) kb) @ [0] @ drop (nat n + 1) cb)"
      using assms b(4) by auto
  next
    fix j assume "j < length (cipher b)"
    then have j: "j < length cb" using b(4) by simp
    show "cipher b ! j = (map2 enc_byte (take (nat n) pb) (take (nat n) kb) @ [0] @ drop (nat n + 1) cb) ! j"
      using assms j b(7)[OF j] 
      by (auto simp: nth_append nth_Cons' nat_add_distrib)
  qed
  show ?thesis using e P K C by blast
qed

lemma letter_of_int:
  assumes "1 \<le> m" "m \<le> 26" and w: "w = (word_of_int (m + 64) :: byte)"
  shows "uint w = m + 64" "sint w = m + 64" "w \<noteq> 0x20" "w \<in> Sigma"
proof -
  have b: "take_bit 8 (m + 64) = m + 64" using assms by (intro take_bit_int_eq_self) auto
  show u: "uint w = m + 64" unfolding w uint_word_of_int_eq using b by simp
  have "sint w = signed_take_bit 7 (uint w)" by (simp add: sint_uint)
  also have "\<dots> = uint w" using u assms by (intro signed_take_bit_int_eq_self) auto
  finally show "sint w = m + 64" using u by simp
  show n: "w \<noteq> 0x20"
  proof
    assume "w = 0x20"
    then have "uint w = 32" by simp
    with u assms show False by simp
  qed
  have "0x41 \<le> w" "w \<le> 0x5A" using u assms by (simp_all add: word_le_def)
  then show "w \<in> Sigma" by (simp add: Sigma_def)
qed

lemma at_symbol_Sigma: "0 \<le> m \<Longrightarrow> m < 27 \<Longrightarrow> at_symbol m \<in> Sigma"
proof (cases "m = 0")
  case True
  then show ?thesis by (simp add: at_symbol_def Sigma_def)
next
  case False
  assume "0 \<le> m" "m < 27"
  with False have "1 \<le> m" "m \<le> 26" by auto
  from letter_of_int(4)[OF this refl] False show ?thesis by (simp only: at_symbol_def if_False)
qed

lemma at_index_symbol: "0 \<le> m \<Longrightarrow> m < 27 \<Longrightarrow> at_index (at_symbol m) = m"
proof (cases "m = 0")
  case True
  then show ?thesis by (simp add: at_symbol_def at_index_def)
next
  case False
  assume "0 \<le> m" "m < 27"
  with False have m: "1 \<le> m" "m \<le> 26" by auto
  have s: "at_symbol m = word_of_int (m + 64)" using False by (simp only: at_symbol_def if_False)
  show ?thesis
    unfolding at_index_def using letter_of_int(2,3)[OF m s] by simp
qed

lemma at_index_inj:
  assumes "c \<in> Sigma" "d \<in> Sigma" "at_index c = at_index d"
  shows "c = d"
proof -
  have "sint c = sint d"
    using assms Sigma_sint[OF assms(1)] Sigma_sint[OF assms(2)]
    by (auto simp: at_index_def split: if_splits)
  then show ?thesis by (simp add: signed_word_eqI)
qed

lemma enc_byte_inj_on: 
  assumes k: "k \<in> Sigma" 
  shows "inj_on (\<lambda>p. enc_byte p k) Sigma"
proof (rule inj_onI)
  fix p q assume p: "p \<in> Sigma" and q: "q \<in> Sigma" and e: "enc_byte p k = enc_byte q k"
  let ?a = "(at_index p + at_index k) mod 27"
  let ?b = "(at_index q + at_index k) mod 27"
  from e have "at_symbol ?a = at_symbol ?b" by (simp only: enc_byte_at[OF p k] enc_byte_at[OF q k])
  then have "at_index (at_symbol ?a) = at_index (at_symbol ?b)" by simp
  moreover have "0 \<le> ?a" "?a < 27" "0 \<le> ?b" "?b < 27" by simp_all
  ultimately have ab: "?a = ?b" by (simp only: at_index_symbol)
  have "27 dvd (at_index p + at_index k) - (at_index q + at_index k)"
    using ab by (simp only: mod_eq_dvd_iff)
  then have d: "27 dvd at_index p - at_index q" by simp
  have "\<bar>at_index p - at_index q\<bar> < 27"
    using at_index_range[OF p] at_index_range[OF q] by linarith
  with d have "at_index p - at_index q = 0"
    using dvd_imp_le_int[of "at_index p - at_index q" 27] by fastforce
  then have "at_index p = at_index q" by simp
  then show "p = q" using p q by (rule at_index_inj[rotated 2])
qed

lemma enc_byte_Sigma: "p \<in> Sigma \<Longrightarrow> k \<in> Sigma \<Longrightarrow> enc_byte p k \<in> Sigma"
  by (simp add: enc_byte_at at_symbol_Sigma)

lemma encrypt_symbol_eq: "encrypt_symbol p k = Some (enc_byte p k)"
proof -
  obtain b where "encrypt [p, 0] [k, 0] [0, 0] 1 = Some b"
    "cipher b = map2 enc_byte (take (nat 1) [p, 0]) (take (nat 1) [k, 0]) @ [0] @ drop (nat 1 + 1) [0, 0]"
    using encrypt_result[of 1 "[p, 0]" "[k, 0]" "[0, 0]"] by auto
  then show ?thesis by (simp add: encrypt_symbol_def)
qed

lemma map2_cong_sets:
  assumes "\<And>a b. a \<in> set xs \<Longrightarrow> b \<in> set ys \<Longrightarrow> f a b = g a b"
  shows "map2 f xs ys = map2 g xs ys"
proof (rule map_cong[OF refl])
  fix x assume x: "x \<in> set (zip xs ys)"
  obtain a b where ab: "x = (a, b)" by (cases x)
  from x ab have "a \<in> set xs" "b \<in> set ys"
    by (auto dest: set_zip_leftD set_zip_rightD)
  then show "(case x of (a, b) \<Rightarrow> f a b) = (case x of (a, b) \<Rightarrow> g a b)"
    using assms ab by simp
qed

subsection \<open>The claims about the cipher\<close>

text \<open>
  Claim C1, as the code has it: for a text and a key whose first \<open>n\<close> bytes are symbols
  of the alphabet, \<^verbatim>\<open>encrypt\<close> returns and leaves at each position \<open>i < n\<close> of the
  output the symbol whose number is \<open>(t + k) mod 27\<close>, where \<open>t\<close> and \<open>k\<close> are the
  numbers of \<open>text[i]\<close> and \<open>key[i]\<close> under the code's numbering: the space is 0 and
  \<^verbatim>\<open>'A'..'Z'\<close> are 1..26 (\<open>at_index\<close>, \<open>at_symbol\<close>).
\<close>

theorem encrypt_at_transform:
  assumes "n \<le> length pb" "n \<le> length kb" "n + 1 \<le> length cb"
    and "set (take n pb) \<subseteq> Sigma" "set (take n kb) \<subseteq> Sigma"
  shows "map_option (\<lambda>b. take n (cipher b)) (encrypt pb kb cb (int n))
           = Some (at_transform (take n pb) (take n kb))"
proof -
  obtain b where b: "encrypt pb kb cb (int n) = Some b"
    "cipher b = map2 enc_byte (take n pb) (take n kb) @ [0] @ drop (n + 1) cb"
    using encrypt_result[of "int n" pb kb cb] assms(1-3) by auto
  have "map2 enc_byte (take n pb) (take n kb) = at_transform (take n pb) (take n kb)"
    unfolding at_transform_def using assms(4,5)
    by (intro map2_cong_sets) (auto intro!: enc_byte_at)
  moreover have "length (at_transform (take n pb) (take n kb)) = n"
    using assms(1,2) by (simp add: at_transform_def)
  ultimately show ?thesis using b by simp
qed


theorem encrypt_at_transform_witness:
  "3 \<le> length (bytes_of ''A B'' @ [0]) \<and> 3 \<le> length (bytes_of ''ZZZ'' @ [0]) \<and>
   3 + 1 \<le> length (replicate 4 (0::byte)) \<and>
   set (take 3 (bytes_of ''A B'' @ [0])) \<subseteq> Sigma \<and> set (take 3 (bytes_of ''ZZZ'' @ [0])) \<subseteq> Sigma \<and>
   map_option (\<lambda>b. take 3 (cipher b))
     (encrypt (bytes_of ''A B'' @ [0]) (bytes_of ''ZZZ'' @ [0]) (replicate 4 0) 3)
     = Some (bytes_of '' ZA'')"
proof -
  have h: "3 \<le> length (bytes_of ''A B'' @ [0])" "3 \<le> length (bytes_of ''ZZZ'' @ [0])"
    "3 + 1 \<le> length (replicate 4 (0::byte))"
    by (simp_all add: bytes_of_def)
  have s: "set (take 3 (bytes_of ''A B'' @ [0])) \<subseteq> Sigma"
    "set (take 3 (bytes_of ''ZZZ'' @ [0])) \<subseteq> Sigma"
    by (simp_all add: bytes_of_def Sigma_def)
  have e: "at_transform (take 3 (bytes_of ''A B'' @ [0])) (take 3 (bytes_of ''ZZZ'' @ [0]))
             = bytes_of '' ZA''"
    by code_simp
  show ?thesis
    using h s e encrypt_at_transform[OF h s] by simp
qed

text \<open>The specification's numbering, as defined above, gives the specification's own
  test vectors (section 8).\<close>

lemma spec_transform_vectors:
  "spec_transform (bytes_of ''HELLO'') (bytes_of ''WORLD'') = bytes_of ''CSBWR''"
  "spec_transform (bytes_of ''A B'') (bytes_of ''ZZZ'') = bytes_of ''ZY ''"
  by code_simp+

text \<open>
  Claim C1 as the specification states it, with \<^verbatim>\<open>'A'..'Z'\<close> numbered 0..25 and the
  space 26, fails on the one-symbol text \<^verbatim>\<open>"A"\<close> under the key \<^verbatim>\<open>"A"\<close>: the code
  computes \<open>(1 + 1) mod 27 = 2\<close>, the letter \<^verbatim>\<open>'B'\<close>, where the specification's
  numbering gives \<open>(0 + 0) mod 27 = 0\<close>, the letter \<^verbatim>\<open>'A'\<close>.
\<close>

theorem encrypt_spec_numbering_counterexample:
  "map_option (\<lambda>b. take 1 (cipher b))
     (encrypt (bytes_of ''A'' @ [0]) (bytes_of ''A'' @ [0]) [0, 0] 1)
   \<noteq> Some (spec_transform (bytes_of ''A'') (bytes_of ''A''))"
  by code_simp

text \<open>
  Claim C5, as the code has it: encrypting \<^verbatim>\<open>"HELLO"\<close> with the key \<^verbatim>\<open>"WORLD"\<close>
  yields \<^verbatim>\<open>"DTCXS"\<close> (H = 8 and W = 23 in the code's numbering, \<open>31 mod 27 = 4\<close>, the
  letter D; and so on).
\<close>

theorem encrypt_HELLO_WORLD:
  "map_option (\<lambda>b. take 5 (cipher b))
     (encrypt (bytes_of ''HELLO'' @ [0]) (bytes_of ''WORLD'' @ [0]) (replicate 6 0) 5)
   = Some (bytes_of ''DTCXS'')"
  by code_simp

text \<open>Claim C5 as stated: the ciphertext is not \<^verbatim>\<open>"CSBWR"\<close>.\<close>

theorem encrypt_HELLO_WORLD_counterexample:
  "map_option (\<lambda>b. take 5 (cipher b))
     (encrypt (bytes_of ''HELLO'' @ [0]) (bytes_of ''WORLD'' @ [0]) (replicate 6 0) 5)
   \<noteq> Some (bytes_of ''CSBWR'')"
  by code_simp

text \<open>
  Claim C6, as the code has it: \<^verbatim>\<open>encrypt\<close> overwrites every space among the first
  \<open>n\<close> bytes of its text and of its key array with \<^verbatim>\<open>'@'\<close> (\<open>despace\<close>) and leaves
  every other byte of the two arrays as it was.
\<close>

theorem encrypt_despaces_inputs:
  assumes "n \<le> length pb" "n \<le> length kb" "n + 1 \<le> length cb"
  shows "map_option (\<lambda>b. (plain b, key b)) (encrypt pb kb cb (int n))
     = Some (map despace (take n pb) @ drop n pb, map despace (take n kb) @ drop n kb)"
  using encrypt_result[of "int n" pb kb cb] assms by auto

theorem encrypt_despaces_inputs_witness:
  "3 \<le> length (bytes_of ''A B'' @ [0]) \<and> 3 \<le> length (bytes_of ''X Z'' @ [0]) \<and>
   3 + 1 \<le> length (replicate 4 (0::byte)) \<and>
   map_option (\<lambda>b. (plain b, key b))
     (encrypt (bytes_of ''A B'' @ [0]) (bytes_of ''X Z'' @ [0]) (replicate 4 0) 3)
     = Some (bytes_of ''A@B'' @ [0], bytes_of ''X@Z'' @ [0])"
proof -
  have h: "3 \<le> length (bytes_of ''A B'' @ [0])" "3 \<le> length (bytes_of ''X Z'' @ [0])"
    "3 + 1 \<le> length (replicate 4 (0::byte))"
    by (simp_all add: bytes_of_def)
  have e: "map despace (take 3 (bytes_of ''A B'' @ [0])) @ drop 3 (bytes_of ''A B'' @ [0])
             = bytes_of ''A@B'' @ [0]"
    "map despace (take 3 (bytes_of ''X Z'' @ [0])) @ drop 3 (bytes_of ''X Z'' @ [0])
             = bytes_of ''X@Z'' @ [0]"
    by code_simp+
  show ?thesis
    using h e encrypt_despaces_inputs[OF h] by simp
qed

text \<open>
  Claim C6 as stated fails on the text \<^verbatim>\<open>"A B"\<close>: after the call the text array
  differs from what was passed in (it holds \<^verbatim>\<open>"A@B"\<close>).
\<close>

theorem encrypt_mutates_text_counterexample:
  "map_option plain
     (encrypt (bytes_of ''A B'' @ [0]) (bytes_of ''XYZ'' @ [0]) (replicate 4 0) 3)
   \<noteq> Some (bytes_of ''A B'' @ [0])"
  by code_simp

lemma at_index_image: "at_index ` Sigma = {0..26}"
proof (rule set_eqI, rule iffI)
  fix m assume "m \<in> at_index ` Sigma"
  then show "m \<in> {0..26}" using at_index_range by auto
next
  fix m :: int assume m: "m \<in> {0..26}"
  then have "at_symbol m \<in> Sigma" "at_index (at_symbol m) = m"
    by (simp_all add: at_symbol_Sigma at_index_symbol)
  then show "m \<in> at_index ` Sigma" by (metis imageI)
qed

lemma card_Sigma: "card Sigma = 27"
proof -
  have "inj_on at_index Sigma" by (rule inj_onI) (rule at_index_inj)
  then have "card Sigma = card (at_index ` Sigma)" by (simp add: card_image)
  then show ?thesis by (simp add: at_index_image)
qed

text \<open>
  Claim C7: for every key symbol \<open>k\<close> of the alphabet, encrypting the one-symbol text
  \<open>[p]\<close> under \<open>[k]\<close> always returns, and \<open>p \<mapsto>\<close> the output symbol is a bijection of
  the alphabet onto itself: its 27 symbols yield 27 distinct output symbols.
\<close>

theorem encrypt_symbol_bij:
  assumes "k \<in> Sigma"
  shows "bij_betw (\<lambda>p. encrypt_symbol p k) Sigma (Some ` Sigma) \<and>
         card Sigma = 27 \<and> card ((\<lambda>p. encrypt_symbol p k) ` Sigma) = 27"
proof -
  have fin: "finite Sigma" by simp
  have inj: "inj_on (\<lambda>p. enc_byte p k) Sigma" using assms by (rule enc_byte_inj_on)
  have sub: "(\<lambda>p. enc_byte p k) ` Sigma \<subseteq> Sigma" using assms by (auto simp: enc_byte_Sigma)
  have "card ((\<lambda>p. enc_byte p k) ` Sigma) = card Sigma" using inj by (rule card_image)
  with sub fin have img: "(\<lambda>p. enc_byte p k) ` Sigma = Sigma" by (simp add: card_subset_eq)
  have "bij_betw (\<lambda>p. enc_byte p k) Sigma Sigma" using inj img by (simp add: bij_betw_def)
  then have "bij_betw (Some \<circ> (\<lambda>p. enc_byte p k)) Sigma (Some ` Sigma)"
    by (rule bij_betw_trans) (simp add: bij_betw_def)
  then have b: "bij_betw (\<lambda>p. encrypt_symbol p k) Sigma (Some ` Sigma)"
    by (simp add: encrypt_symbol_eq comp_def)
  then have "card ((\<lambda>p. encrypt_symbol p k) ` Sigma) = card Sigma"
    by (simp add: bij_betw_def card_image)
  with b card_Sigma show ?thesis by simp
qed

theorem encrypt_symbol_bij_witness:
  "(0x4B :: byte) \<in> Sigma \<and> bij_betw (\<lambda>p. encrypt_symbol p 0x4B) Sigma (Some ` Sigma) \<and>
   card Sigma = 27 \<and> card ((\<lambda>p. encrypt_symbol p 0x4B) ` Sigma) = 27"
proof -
  have h: "(0x4B :: byte) \<in> Sigma" by (simp add: Sigma_def)
  show ?thesis using h encrypt_symbol_bij[OF h] by simp
qed

section \<open>Properties of \<^verbatim>\<open>sendrecv\<close>\<close>

lemma sys_send_frame:
  "sys_send c d r = (n, c') \<Longrightarrow>
     n = ret c (calls c) r \<and> ret c' = ret c \<and> inbound c' = inbound c \<and> taken c' = taken c \<and>
     calls c' = calls c + 1 \<and> sent c' = sent c @ take (nat n) d"
  by (auto simp: sys_send_def Let_def)

lemma sys_recv_frame:
  "sys_recv c r = (n, got, c') \<Longrightarrow>
     n = ret c (calls c) r \<and> ret c' = ret c \<and> inbound c' = inbound c \<and>
     taken c' = taken c + nat n \<and> calls c' = calls c + 1 \<and> sent c' = sent c \<and>
     got = map (inbound c) [taken c ..< taken c + nat n]"
  by (auto simp: sys_recv_def Let_def)

lemma posixD: "posix r \<Longrightarrow> 0 \<le> n \<Longrightarrow> r k n \<noteq> - 1 \<Longrightarrow> 0 \<le> r k n \<and> r k n \<le> n"
  unfolding posix_def by (metis not_le)

lemma poke_Some:
  assumes "poke str t got = Some str1"
  shows "t + length got \<le> length str" "str1 = take t str @ got @ drop (t + length got) str"
    "length str1 = length str"
  using assms by (auto simp: poke_def split: if_splits)

lemma poke_take:
  assumes "t + length got \<le> length str"
  shows "take (t + length got) (take t str @ got @ drop (t + length got) str) = take t str @ got"
  using assms by simp

lemma poke_drop:
  assumes "t + length got \<le> length str" "t + length got \<le> m"
  shows "drop m (take t str @ got @ drop (t + length got) str) = drop m str"
proof -
  have "m = (m - (t + length got)) + (t + length got)" using assms by simp
  then have "drop m str = drop (m - (t + length got)) (drop (t + length got) str)"
    by (metis drop_drop)
  then show ?thesis using assms by simp
qed

lemma send_chain:
  assumes "a \<le> r"
  shows "take a (take r (drop t str)) @ take b (drop (t + a) str) = take (a + b) (drop t str)"
proof -
  have "take a (take r (drop t str)) = take a (drop t str)" using assms by (simp add: min_def)
  moreover have "drop (t + a) str = drop a (drop t str)" by (simp add: add.commute)
  ultimately show ?thesis by (simp add: take_add)
qed

lemma recv_chain:
  "map f [a ..< a + n] @ map f [a + n ..< a + n + m] = map f [a ..< a + (n + m)]"
proof -
  have "[a ..< (a + n) + m] = [a ..< a + n] @ [a + n ..< (a + n) + m]"
    by (rule upt_add_eq_append) simp
  then have "map f [a ..< a + n + m] = map f [a ..< a + n] @ map f [a + n ..< a + n + m]"
    by (simp only: map_append)
  then show ?thesis by (simp only: add.assoc)
qed

lemma loop_step_cases:
  fixes f :: "conn \<Rightarrow> byte list \<Rightarrow> int \<Rightarrow> bool \<Rightarrow> int \<Rightarrow> int \<Rightarrow> (fault + int \<times> byte list \<times> conn) option"
  assumes step: "(if t < len then
        (if t < 0 \<or> r < 0 \<or> int (length str) < t + r then Some (Inl OutOfBounds)
         else if mode then
           (case sys_send c (take (nat r) (drop (nat t) str)) r of
              (n, c') \<Rightarrow>
                if n = - 1 then Some (Inr (t, str, c'))
                else f c' str len mode (t + n) (r - n))
         else
           (case sys_recv c r of
              (n, got, c') \<Rightarrow>
                if n = - 1 then Some (Inr (t, str, c'))
                else (case poke str (nat t) got of
                        None \<Rightarrow> Some (Inl OutOfBounds)
                      | Some str' \<Rightarrow> f c' str' len mode (t + n) (r - n))))
      else Some (Inr (t, str, c))) = Some y"
  obtains
    (stop) "\<not> t < len" "y = Inr (t, str, c)"
  | (oob) "t < len" "t < 0 \<or> r < 0 \<or> int (length str) < t + r" "y = Inl OutOfBounds"
  | (recv_oob) n0 got c1 where "t < len" "0 \<le> t" "0 \<le> r" "t + r \<le> int (length str)"
      "\<not> mode" "sys_recv c r = (n0, got, c1)" "n0 \<noteq> - 1" "poke str (nat t) got = None"
      "y = Inl OutOfBounds"
  | (send_fail) c1 where "t < len" "0 \<le> t" "0 \<le> r" "t + r \<le> int (length str)" "mode"
      "sys_send c (take (nat r) (drop (nat t) str)) r = (- 1, c1)" "y = Inr (t, str, c1)"
  | (send_more) n0 c1 where "t < len" "0 \<le> t" "0 \<le> r" "t + r \<le> int (length str)" "mode"
      "sys_send c (take (nat r) (drop (nat t) str)) r = (n0, c1)" "n0 \<noteq> - 1"
      "f c1 str len mode (t + n0) (r - n0) = Some y"
  | (recv_fail) got c1 where "t < len" "0 \<le> t" "0 \<le> r" "t + r \<le> int (length str)" "\<not> mode"
      "sys_recv c r = (- 1, got, c1)" "y = Inr (t, str, c1)"
  | (recv_more) n0 got c1 str1 where "t < len" "0 \<le> t" "0 \<le> r" "t + r \<le> int (length str)"
      "\<not> mode" "sys_recv c r = (n0, got, c1)" "n0 \<noteq> - 1" "poke str (nat t) got = Some str1"
      "f c1 str1 len mode (t + n0) (r - n0) = Some y"
proof (cases "t < len")
  case False
  with step have "y = Inr (t, str, c)" by simp
  with False show ?thesis by (rule stop)
next
  case tl: True
  show ?thesis
  proof (cases "t < 0 \<or> r < 0 \<or> int (length str) < t + r")
    case True
    with step tl have "y = Inl OutOfBounds" by simp
    with tl True show ?thesis by (intro oob) auto
  next
    case False
    then have b: "0 \<le> t" "0 \<le> r" "t + r \<le> int (length str)" by auto
    show ?thesis
    proof (cases mode)
      case True
      obtain n0 c1 where s: "sys_send c (take (nat r) (drop (nat t) str)) r = (n0, c1)"
        by (cases "sys_send c (take (nat r) (drop (nat t) str)) r")
      show ?thesis
      proof (cases "n0 = - 1")
        case n1: True
        from step tl False True s n1 have "y = Inr (t, str, c1)" by simp
        with tl b True s n1 show ?thesis by (intro send_fail[of c1]) auto
      next
        case n1: False
        from step tl False True s n1 have "f c1 str len mode (t + n0) (r - n0) = Some y" by simp
        with tl b True s n1 show ?thesis by (intro send_more[of n0 c1]) auto
      qed
    next
      case md: False
      obtain n0 got c1 where s: "sys_recv c r = (n0, got, c1)"
        by (cases "sys_recv c r")
      show ?thesis
      proof (cases "n0 = - 1")
        case n1: True
        from step tl False md s n1 have "y = Inr (t, str, c1)" by simp
        with tl b md s n1 show ?thesis by (intro recv_fail[of got c1]) auto
      next
        case n1: False
        show ?thesis
        proof (cases "poke str (nat t) got")
          case None
          with step tl False md s n1 have "y = Inl OutOfBounds" by simp
          with tl b md s n1 None show ?thesis by (intro recv_oob[of n0 got c1]) auto
        next
          case (Some str1)
          with step tl False md s n1 have "f c1 str1 len mode (t + n0) (r - n0) = Some y" by simp
          with tl b md s n1 Some show ?thesis by (intro recv_more[of n0 got c1 str1]) auto
        qed
      qed
    qed
  qed
qed

lemma loop_post_stop:
  "t \<le> len \<Longrightarrow> loop_post c str len mode t (t, str, c)"
  by (simp add: loop_post_def)

lemma loop_post_send_fail:
  assumes "t \<le> len" "sys_send c d r = (- 1, c1)"
  shows "loop_post c str len True t (t, str, c1)"
  using assms(1) sys_send_frame[OF assms(2)] by (simp add: loop_post_def)

lemma loop_post_recv_fail:
  assumes "t \<le> len" "sys_recv c r = (- 1, got, c1)"
  shows "loop_post c str len False t (t, str, c1)"
  using assms(1) sys_recv_frame[OF assms(2)] by (simp add: loop_post_def)

lemma loop_post_send_more:
  assumes s: "sys_send c (take (nat r) (drop (nat t) str)) r = (n0, c1)"
    and b: "0 \<le> n0" "n0 \<le> r" "0 \<le> t"
    and p1: "loop_post c1 str len True (t + n0) (n, s', c')"
  shows "loop_post c str len True t (n, s', c')"
proof -
  note fr = sys_send_frame[OF s]
  from p1 have n: "t + n0 \<le> n" "n \<le> len" by (simp_all add: loop_post_def)
  from p1 have q: "ret c' = ret c1" "inbound c' = inbound c1" "calls c1 \<le> calls c'"
    "s' = str" "taken c' = taken c1"
    "sent c' = sent c1 @ take (nat (n - (t + n0))) (drop (nat (t + n0)) str)"
    by (simp_all add: loop_post_def)
  have "sent c' = sent c @ (take (nat n0) (take (nat r) (drop (nat t) str))
                @ take (nat (n - (t + n0))) (drop (nat t + nat n0) str))"
    using q(6) fr b by (simp add: nat_add_distrib)
  also have "\<dots> = sent c @ take (nat n0 + nat (n - (t + n0))) (drop (nat t) str)"
    using b by (subst send_chain) auto
  also have "nat n0 + nat (n - (t + n0)) = nat (n - t)" using b n by auto
  finally have "sent c' = sent c @ take (nat (n - t)) (drop (nat t) str)" .
  then show ?thesis using q fr b n by (simp add: loop_post_def)
qed

lemma loop_post_recv_more:
  assumes s: "sys_recv c r = (n0, got, c1)"
    and b: "0 \<le> n0" "n0 \<le> r" "0 \<le> t"
    and pk: "poke str (nat t) got = Some str1"
    and p1: "loop_post c1 str1 len False (t + n0) (n, s', c')"
  shows "loop_post c str len False t (n, s', c')"
proof -
  note fr = sys_recv_frame[OF s]
  from p1 have n: "t + n0 \<le> n" "n \<le> len" by (simp_all add: loop_post_def)
  from p1 have q: "ret c' = ret c1" "inbound c' = inbound c1" "calls c1 \<le> calls c'"
    "sent c' = sent c1" "taken c' = taken c1 + nat (n - (t + n0))"
    "s' = take (nat (t + n0)) str1
           @ map (inbound c1) [taken c1 ..< taken c1 + nat (n - (t + n0))] @ drop (nat n) str1"
    by (simp_all add: loop_post_def)
  have lg: "length got = nat n0" using fr by simp
  note pks = poke_Some[OF pk]
  have e1: "nat (t + n0) = nat t + length got" using b lg by (simp add: nat_add_distrib)
  have tk: "take (nat (t + n0)) str1 = take (nat t) str @ got"
    unfolding pks(2) e1 using pks(1) by (rule poke_take)
  have "nat t + length got \<le> nat n" using n b lg by linarith
  with pks(1) have dr: "drop (nat n) str1 = drop (nat n) str"
    unfolding pks(2) by (rule poke_drop)
  have g: "got = map (inbound c) [taken c ..< taken c + nat n0]" using fr by simp
  have "s' = take (nat t) str
                 @ (map (inbound c) [taken c ..< taken c + nat n0]
                    @ map (inbound c) [taken c + nat n0 ..< taken c + nat n0 + nat (n - (t + n0))])
                 @ drop (nat n) str"
    unfolding q(6) tk dr using fr g by simp
  also have "\<dots> = take (nat t) str
                 @ map (inbound c) [taken c ..< taken c + (nat n0 + nat (n - (t + n0)))]
                 @ drop (nat n) str"
    by (simp only: recv_chain)
  also have "nat n0 + nat (n - (t + n0)) = nat (n - t)" using b n by auto
  finally have "s' = take (nat t) str
                 @ map (inbound c) [taken c ..< taken c + nat (n - t)] @ drop (nat n) str" .
  moreover have "taken c' = taken c + nat (n - t)"
    using q(5) fr b n by simp
  ultimately show ?thesis using q(1-4) fr b n by (simp add: loop_post_def)
qed

lemma sendrecv_loop_post:
  assumes "sendrecv_loop c str len mode t r = Some y"
  shows "posix (ret c) \<longrightarrow> 0 \<le> t \<longrightarrow> 0 \<le> r \<longrightarrow> t + r = len \<longrightarrow>
     (\<forall>res. y = Inr res \<longrightarrow> loop_post c str len mode t res)"
proof (rule sendrecv_loop.raw_induct[where P = "\<lambda>c str len mode t r y.
     posix (ret c) \<longrightarrow> 0 \<le> t \<longrightarrow> 0 \<le> r \<longrightarrow> t + r = len \<longrightarrow>
     (\<forall>res. y = Inr res \<longrightarrow> loop_post c str len mode t res)", OF _ assms])
  fix f :: "conn \<Rightarrow> byte list \<Rightarrow> int \<Rightarrow> bool \<Rightarrow> int \<Rightarrow> int \<Rightarrow> (fault + int \<times> byte list \<times> conn) option"
    and c :: conn and str :: "byte list" and len :: int and mode :: bool and t r :: int
    and y :: "fault + int \<times> byte list \<times> conn"
  assume IH: "\<And>c str len mode t r y. f c str len mode t r = Some y \<Longrightarrow>
     posix (ret c) \<longrightarrow> 0 \<le> t \<longrightarrow> 0 \<le> r \<longrightarrow> t + r = len \<longrightarrow>
     (\<forall>res. y = Inr res \<longrightarrow> loop_post c str len mode t res)"
  assume step: "(if t < len then
        (if t < 0 \<or> r < 0 \<or> int (length str) < t + r then Some (Inl OutOfBounds)
         else if mode then
           (case sys_send c (take (nat r) (drop (nat t) str)) r of
              (n, c') \<Rightarrow>
                if n = - 1 then Some (Inr (t, str, c'))
                else f c' str len mode (t + n) (r - n))
         else
           (case sys_recv c r of
              (n, got, c') \<Rightarrow>
                if n = - 1 then Some (Inr (t, str, c'))
                else (case poke str (nat t) got of
                        None \<Rightarrow> Some (Inl OutOfBounds)
                      | Some str' \<Rightarrow> f c' str' len mode (t + n) (r - n))))
      else Some (Inr (t, str, c))) = Some y"
  show "posix (ret c) \<longrightarrow> 0 \<le> t \<longrightarrow> 0 \<le> r \<longrightarrow> t + r = len \<longrightarrow>
     (\<forall>res. y = Inr res \<longrightarrow> loop_post c str len mode t res)"
  proof (intro impI allI)
    fix res
    assume px: "posix (ret c)" and t0: "0 \<le> t" and r0: "0 \<le> r" and tr: "t + r = len"
      and y: "y = Inr res"
    have tl: "t \<le> len" using r0 tr by simp
    from step show "loop_post c str len mode t res"
    proof (cases rule: loop_step_cases)
      case stop
      from stop(2) y have "res = (t, str, c)" by simp
      then show ?thesis using tl by (simp only: loop_post_stop)
    next
      case oob
      with y show ?thesis by simp
    next
      case (recv_oob n0 got c1)
      with y show ?thesis by simp
    next
      case (send_fail c1)
      from send_fail(7) y have "res = (t, str, c1)" by simp
      moreover from send_fail(5) have "mode = True" by simp
      ultimately show ?thesis using loop_post_send_fail[OF tl send_fail(6)] by (simp only:)
    next
      case (recv_fail got c1)
      from recv_fail(7) y have "res = (t, str, c1)" by simp
      moreover from recv_fail(5) have "mode = False" by simp
      ultimately show ?thesis using loop_post_recv_fail[OF tl recv_fail(6)] by (simp only:)
    next
      case (send_more n0 c1)
      note fr = sys_send_frame[OF send_more(6)]
      from fr px send_more(7) have b: "0 \<le> n0" "n0 \<le> r"
        using posixD[of "ret c" r "calls c"] r0 by auto
      obtain n s' c' where res: "res = (n, s', c')" by (cases res)
      have "loop_post c1 str len mode (t + n0) res"
        using IH[OF send_more(8)] px fr b t0 tr y by simp
      then show ?thesis
        using loop_post_send_more[OF send_more(6) b t0] send_more(5) res by simp
    next
      case (recv_more n0 got c1 str1)
      note fr = sys_recv_frame[OF recv_more(6)]
      from fr px recv_more(7) have b: "0 \<le> n0" "n0 \<le> r"
        using posixD[of "ret c" r "calls c"] r0 by auto
      obtain n s' c' where res: "res = (n, s', c')" by (cases res)
      have "loop_post c1 str1 len mode (t + n0) res"
        using IH[OF recv_more(9)] px fr b t0 tr y by simp
      then show ?thesis
        using loop_post_recv_more[OF recv_more(6) b t0 recv_more(8)] recv_more(5) res by simp
    qed
  qed
qed

lemma sendrecv_post:
  assumes "sendrecv c str len mode = Some (Inr res)" "posix (ret c)" "0 \<le> len"
  shows "loop_post c (if mode then str else replicate (nat (len + 1)) 0 @ drop (nat (len + 1)) str)
           len mode 0 res"
proof (cases mode)
  case True
  with assms(1) have "sendrecv_loop c str len mode 0 len = Some (Inr res)"
    by (simp add: sendrecv_def)
  from sendrecv_loop_post[OF this] assms(2,3) True show ?thesis by simp
next
  case False
  with assms(1) obtain str0 where m: "memset str 0 (len + 1) = Some str0"
    and l: "sendrecv_loop c str0 len mode 0 len = Some (Inr res)"
    by (auto simp: sendrecv_def split: option.splits)
  from m have "str0 = replicate (nat (len + 1)) 0 @ drop (nat (len + 1)) str"
    by (auto simp: memset_def split: if_splits)
  with sendrecv_loop_post[OF l] assms(2,3) False show ?thesis by simp
qed

lemma stuck_never_returns:
  assumes "stuck c str len mode t r"
  shows "sendrecv_loop c str len mode t r = None"
proof (cases "sendrecv_loop c str len mode t r")
  case None
  then show ?thesis .
next
  case (Some y)
  have "\<not> stuck c str len mode t r"
  proof (rule sendrecv_loop.raw_induct[where P = "\<lambda>c str len mode t r y.
     \<not> stuck c str len mode t r", OF _ Some])
    fix f :: "conn \<Rightarrow> byte list \<Rightarrow> int \<Rightarrow> bool \<Rightarrow> int \<Rightarrow> int \<Rightarrow> (fault + int \<times> byte list \<times> conn) option"
      and c :: conn and str :: "byte list" and len :: int and mode :: bool and t r :: int
      and y :: "fault + int \<times> byte list \<times> conn"
    assume IH: "\<And>c str len mode t r y. f c str len mode t r = Some y \<Longrightarrow>
       \<not> stuck c str len mode t r"
    assume step: "(if t < len then
        (if t < 0 \<or> r < 0 \<or> int (length str) < t + r then Some (Inl OutOfBounds)
         else if mode then
           (case sys_send c (take (nat r) (drop (nat t) str)) r of
              (n, c') \<Rightarrow>
                if n = - 1 then Some (Inr (t, str, c'))
                else f c' str len mode (t + n) (r - n))
         else
           (case sys_recv c r of
              (n, got, c') \<Rightarrow>
                if n = - 1 then Some (Inr (t, str, c'))
                else (case poke str (nat t) got of
                        None \<Rightarrow> Some (Inl OutOfBounds)
                      | Some str' \<Rightarrow> f c' str' len mode (t + n) (r - n))))
      else Some (Inr (t, str, c))) = Some y"
    show "\<not> stuck c str len mode t r"
    proof
      assume st: "stuck c str len mode t r"
      then have z: "ret c (calls c) r = 0" and nm: "\<not> mode" and tl: "t < len"
        and b: "0 \<le> t" "0 \<le> r" "t + r \<le> int (length str)"
        by (auto simp: stuck_def)
      from step show False
      proof (cases rule: loop_step_cases)
        case stop
        with tl show False by simp
      next
        case oob
        with b show False by auto
      next
        case (send_fail c1)
        with nm show False by simp
      next
        case (send_more n0 c1)
        with nm show False by simp
      next
        case (recv_fail got c1)
        from sys_recv_frame[OF recv_fail(6)] z show False by simp
      next
        case (recv_oob n0 got c1)
        from sys_recv_frame[OF recv_oob(6)] z have "got = []" by simp
        moreover have "nat t \<le> length str" using b by linarith
        ultimately show False using recv_oob(8) by (simp add: poke_def)
      next
        case (recv_more n0 got c1 str1)
        note fr = sys_recv_frame[OF recv_more(6)]
        from fr z have n0: "n0 = 0" and g: "got = []" by simp_all
        have "nat t \<le> length str" using b by linarith
        with recv_more(8) g have s1: "str1 = str" by (simp add: poke_def)
        have "stuck c1 str len mode t r"
          using st fr unfolding stuck_def by (metis less_SucI Suc_eq_plus1)
        moreover have "\<not> stuck c1 str len mode t r"
          using IH[OF recv_more(9)] n0 s1 by simp
        ultimately show False by simp
      qed
    qed
  qed
  with assms show ?thesis by simp
qed

lemma sendrecv_loop_returns:
  assumes "progressing (ret c)" "0 \<le> t" "0 \<le> r" "t + r = len" "len \<le> int (length str)"
  shows "\<exists>n s' c'. sendrecv_loop c str len mode t r = Some (Inr (n, s', c')) \<and>
           (unbroken (ret c) \<longrightarrow> n = len)"
  using assms
proof (induction "nat r" arbitrary: c str t r rule: less_induct)
  case less
  show ?case
  proof (cases "t < len")
    case False
    with less.prems have "t = len" by simp
    then show ?thesis by (subst sendrecv_loop.simps) simp
  next
    case tl: True
    with less.prems have r1: "0 < r" by simp
    have nf: "\<not> (t < 0 \<or> r < 0 \<or> int (length str) < t + r)" using less.prems by simp
    let ?n0 = "ret c (calls c) r"
    from less.prems(1) r1 have pr: "?n0 = - 1 \<or> (1 \<le> ?n0 \<and> ?n0 \<le> r)"
      unfolding progressing_def by (metis not_le)
    have ub: "unbroken (ret c) \<Longrightarrow> 1 \<le> ?n0 \<and> ?n0 \<le> r"
      using r1 unfolding unbroken_def by (metis not_le)
    show ?thesis
    proof (cases mode)
      case True
      obtain n0 c1 where s: "sys_send c (take (nat r) (drop (nat t) str)) r = (n0, c1)"
        by (cases "sys_send c (take (nat r) (drop (nat t) str)) r")
      note fr = sys_send_frame[OF s]
      show ?thesis
      proof (cases "n0 = - 1")
        case n1: True
        have "sendrecv_loop c str len mode t r = Some (Inr (t, str, c1))"
          using tl nf True s n1 by (subst sendrecv_loop.simps) simp
        moreover have "\<not> unbroken (ret c)" using ub fr n1 by auto
        ultimately show ?thesis by simp
      next
        case n1: False
        with pr fr have b: "1 \<le> n0" "n0 \<le> r" by auto
        have e: "sendrecv_loop c str len mode t r = sendrecv_loop c1 str len mode (t + n0) (r - n0)"
          using tl nf True s n1 by (subst sendrecv_loop.simps) simp
        have "\<exists>n s' c'. sendrecv_loop c1 str len mode (t + n0) (r - n0) = Some (Inr (n, s', c')) \<and>
           (unbroken (ret c1) \<longrightarrow> n = len)"
          using less.prems b fr by (intro less.hyps) auto
        then show ?thesis using e fr by simp
      qed
    next
      case md: False
      obtain n0 got c1 where s: "sys_recv c r = (n0, got, c1)"
        by (cases "sys_recv c r")
      note fr = sys_recv_frame[OF s]
      show ?thesis
      proof (cases "n0 = - 1")
        case n1: True
        have "sendrecv_loop c str len mode t r = Some (Inr (t, str, c1))"
          using tl nf md s n1 by (subst sendrecv_loop.simps) simp
        moreover have "\<not> unbroken (ret c)" using ub fr n1 by auto
        ultimately show ?thesis by simp
      next
        case n1: False
        with pr fr have b: "1 \<le> n0" "n0 \<le> r" by auto
        have lg: "length got = nat n0" using fr by simp
        have fit: "nat t + length got \<le> length str" using lg less.prems b by linarith
        then obtain str1 where pk: "poke str (nat t) got = Some str1"
          and l1: "length str1 = length str"
          by (auto simp: poke_def)
        have e: "sendrecv_loop c str len mode t r = sendrecv_loop c1 str1 len mode (t + n0) (r - n0)"
          using tl nf md s n1 pk by (subst sendrecv_loop.simps) simp
        have "\<exists>n s' c'. sendrecv_loop c1 str1 len mode (t + n0) (r - n0) = Some (Inr (n, s', c')) \<and>
           (unbroken (ret c1) \<longrightarrow> n = len)"
          using less.prems b fr l1 by (intro less.hyps) auto
        then show ?thesis using e fr by simp
      qed
    qed
  qed
qed

lemma sendrecv_returns:
  assumes "progressing (ret c)" "0 \<le> len" "len < int (length str)"
  shows "\<exists>n s' c'. sendrecv c str len mode = Some (Inr (n, s', c')) \<and>
           (unbroken (ret c) \<longrightarrow> n = len)"
proof (cases mode)
  case True
  then show ?thesis
    using sendrecv_loop_returns[of c 0 len len str mode] assms by (simp add: sendrecv_def)
next
  case False
  let ?s0 = "replicate (nat (len + 1)) 0 @ drop (nat (len + 1)) str"
  have m: "memset str 0 (len + 1) = Some ?s0" using assms by (simp add: memset_def)
  have "len \<le> int (length ?s0)" using assms by simp
  then show ?thesis
    using sendrecv_loop_returns[of c 0 len len ?s0 mode] assms(1,2) m False
    by (simp add: sendrecv_def)
qed

subsection \<open>The claims about the transfer loop\<close>

text \<open>
  Claim C2 fails on the code. Asked for 7 bytes in receive mode on a connection whose
  peer closes after 3 bytes, \<^verbatim>\<open>sendrecv\<close> never returns: \<^verbatim>\<open>recv\<close> reports the end of
  the stream by returning 0, the loop leaves only on -1, and \<open>total < len\<close> stays true.
  (Lemma \<open>sendrecv_returns\<close> above is the part of the claim that holds: on an unbroken
  connection the call returns exactly \<open>len\<close>.)
\<close>

theorem sendrecv_eof_never_returns:
  "sendrecv conn_eof (replicate 8 0) 7 False = None"
proof -
  let ?c1 = "conn_eof\<lparr>calls := 1, taken := 3\<rparr>"
  let ?s1 = "bytes_of ''otp'' @ replicate 5 0"
  have m: "memset (replicate 8 0) 0 (7 + 1) = Some (replicate 8 0)"
    by (simp add: memset_def)
  have r: "sys_recv conn_eof 7 = (3, bytes_of ''otp'', ?c1)"
    by (simp add: sys_recv_def conn_eof_def conn_of_def feed_def bytes_of_def upt_conv_Cons)
  have p: "poke (replicate 8 0) 0 (bytes_of ''otp'') = Some ?s1"
    by (simp add: poke_def bytes_of_def)
  have "sendrecv_loop conn_eof (replicate 8 0) 7 False 0 7 = sendrecv_loop ?c1 ?s1 7 False 3 4"
    by (subst sendrecv_loop.simps) (simp add: r p)
  moreover have "stuck ?c1 ?s1 7 False 3 4"
    by (simp add: stuck_def conn_eof_def conn_of_def bytes_of_def)
  ultimately have "sendrecv_loop conn_eof (replicate 8 0) 7 False 0 7 = None"
    by (simp only: stuck_never_returns)
  then show ?thesis using m by (simp add: sendrecv_def)
qed

text \<open>
  Claim C10, as the code has it: for a requested length \<open>len \<ge> 0\<close>, in either mode and
  whatever the system calls return within what POSIX allows, a count that \<^verbatim>\<open>sendrecv\<close>
  returns lies between 0 and \<open>len\<close>.
\<close>

theorem sendrecv_count_bounds:
  assumes "0 \<le> len" "posix (ret c)" "sendrecv c str len mode = Some (Inr (n, s', c'))"
  shows "0 \<le> n \<and> n \<le> len"
  using sendrecv_post[OF assms(3,2,1)] by (simp add: loop_post_def)

theorem sendrecv_count_bounds_witness:
  "(0::int) \<le> 7 \<and> posix (ret (conn_of (\<lambda>k n. min n 3) (bytes_of ''otp_enc''))) \<and>
   map_option (map_sum id fst)
     (sendrecv (conn_of (\<lambda>k n. min n 3) (bytes_of ''otp_enc'')) (replicate 8 1) 7 False)
     = Some (Inr 7) \<and> (0::int) \<le> 7 \<and> (7::int) \<le> 7"
proof -
  let ?c = "conn_of (\<lambda>k n. min n 3) (bytes_of ''otp_enc'')"
  have px: "posix (ret ?c)" by (auto simp: posix_def conn_of_def)
  have "\<exists>s' c'. sendrecv ?c (replicate 8 1) 7 False = Some (Inr (7, s', c'))"
    by (simp add: sendrecv_def sendrecv_loop.simps sys_recv_def poke_def memset_def
        conn_of_def Let_def)
  then obtain s' c' where r: "sendrecv ?c (replicate 8 1) 7 False = Some (Inr (7, s', c'))"
    by blast
  have "(0::int) \<le> 7" by simp
  from sendrecv_count_bounds[OF this px r] px r show ?thesis by simp
qed

text \<open>The daemon does call \<^verbatim>\<open>sendrecv\<close> with a negative length when its peer announces
  one: the fourth and the last transfer of this run ask for -1 bytes and return 0.\<close>

lemma enc_d_child_negative_length:
  "map_option (map_sum id trace) (enc_d_child 51000 (\<lambda>_. 0x55) 8388608 conn_negative_length)
   = Some (Inr
       [Xfer False 7 7, Xfer True 4 4, Xfer False 9 9,
        Xfer False (- 1) 0, Stderr (enc_d_received 51000 0),
        Xfer False 9 9, Xfer False 0 0,
        Xfer True (- 1) 0, Stderr (enc_d_sent 51000 0),
        CloseFd ListeningFD, CloseFd ConnectedFD])"
  by code_simp

text \<open>
  Claim C10 as stated, for every call: with \<open>len = -1\<close> (the daemon passes on whatever
  length its peer announces) the loop body never runs and the call returns 0, which is
  more than the requested length.
\<close>

theorem sendrecv_negative_len_counterexample:
  "posix (ret (conn_of (\<lambda>k n. n) [])) \<and>
   map_option (map_sum id fst) (sendrecv (conn_of (\<lambda>k n. n) []) [] (- 1) True) = Some (Inr 0) \<and>
   \<not> ((0::int) \<le> - 1)"
  by (auto simp: posix_def conn_of_def sendrecv_def sendrecv_loop.simps)


section \<open>Properties of the file scanner and of the two mains\<close>

lemma scan_ok_always: "scan_ok c"
proof -
  have "65 \<le> sint c \<or> sint c \<le> 90" by linarith
  then show ?thesis by (simp add: scan_ok_def)
qed

lemma scanfile_loop_newline:
  assumes "pos < length f" "f ! pos = 0x0A"
  shows "scanfile_loop name f pos n = Some (Inr n)"
  using assms by (subst scanfile_loop.simps) (simp add: fgetc_def)

lemma scanfile_loop_skip:
  assumes "pos < length f" "f ! pos \<noteq> 0x0A"
  shows "scanfile_loop name f pos n = scanfile_loop name f (pos + 1) (n + 1)"
  using assms by (subst scanfile_loop.simps) (simp add: fgetc_def scan_ok_always)

lemma scanfile_loop_line:
  assumes "0x0A \<notin> set xs"
  shows "scanfile_loop name (pre @ xs @ 0x0A # rest) (length pre) n = Some (Inr (n + int (length xs)))"
  using assms
proof (induction xs arbitrary: pre n)
  case Nil
  then show ?case by (simp add: scanfile_loop_newline)
next
  case (Cons x xs)
  have "scanfile_loop name (pre @ (x # xs) @ 0x0A # rest) (length pre) n
        = scanfile_loop name (pre @ (x # xs) @ 0x0A # rest) (length pre + 1) (n + 1)"
    using Cons.prems by (intro scanfile_loop_skip) auto
  also have "\<dots> = scanfile_loop name ((pre @ [x]) @ xs @ 0x0A # rest) (length (pre @ [x])) (n + 1)"
    by simp
  also have "\<dots> = Some (Inr (n + 1 + int (length xs)))"
    using Cons.prems by (intro Cons.IH) auto
  finally show ?case by simp
qed

lemma scanfile_line:
  assumes "files w name = Some (xs @ 0x0A # rest)" "0x0A \<notin> set xs"
  shows "scanfile w name = Some (Inr (int (length xs)))"
  using scanfile_loop_line[of xs name "[]" rest 0] assms by (simp add: scanfile_def)

text \<open>\<^verbatim>\<open>atoi\<close> yields an \<^verbatim>\<open>int\<close>: text that denotes a larger number is cut to its low
  32 bits, and text beyond the range of a \<^verbatim>\<open>long\<close> is -1 or 0.\<close>

lemma atoi_range: "- (2 ^ 31) \<le> atoi s \<and> atoi s < 2 ^ 31"
  using sint_range_size[of "word_of_int (strtol s) :: 32 word"]
  by (simp add: atoi_def word_size)

lemma atoi_examples:
  "atoi (bytes_of ''51000'') = 51000"
  "atoi (bytes_of ''4295018296'') = 51000"
  "atoi (bytes_of ''99999999999999999999'') = - 1"
  "atoi (bytes_of '' -12x'') = - 12"
  by code_simp+

lemma checked_sendrecv_eq:
  assumes "sendrecv (sock p) str len mode = Some (Inr (chars, str', c'))"
  shows "checked_sendrecv p str len mode msg k
           = k str' (p\<lparr>trace := trace p @ report mode len chars msg, sock := c'\<rparr>)"
  using assms by (simp add: checked_sendrecv_def)

lemma checked_sendrecv_Inr:
  assumes "checked_sendrecv p str len mode msg k = Some (Inr r)"
  obtains chars str' c' where "sendrecv (sock p) str len mode = Some (Inr (chars, str', c'))"
    "k str' (p\<lparr>trace := trace p @ report mode len chars msg, sock := c'\<rparr>) = Some (Inr r)"
proof (cases "sendrecv (sock p) str len mode")
  case None
  with assms show ?thesis by (simp add: checked_sendrecv_def)
next
  case (Some y)
  show ?thesis
  proof (cases y)
    case (Inl e)
    with Some assms show ?thesis by (simp add: checked_sendrecv_def)
  next
    case (Inr res)
    obtain chars str' c' where "res = (chars, str', c')" by (cases res)
    with Some Inr assms that show ?thesis by (simp add: checked_sendrecv_def)
  qed
qed

lemma send_loop_unchanged:
  assumes "sendrecv_loop c str len mode t r = Some y"
  shows "mode \<longrightarrow> (\<forall>n s' c'. y = Inr (n, s', c') \<longrightarrow> s' = str)"
proof (rule sendrecv_loop.raw_induct[where P = "\<lambda>c str len mode t r y.
     mode \<longrightarrow> (\<forall>n s' c'. y = Inr (n, s', c') \<longrightarrow> s' = str)", OF _ assms])
  fix f :: "conn \<Rightarrow> byte list \<Rightarrow> int \<Rightarrow> bool \<Rightarrow> int \<Rightarrow> int \<Rightarrow> (fault + int \<times> byte list \<times> conn) option"
    and c :: conn and str :: "byte list" and len :: int and mode :: bool and t r :: int
    and y :: "fault + int \<times> byte list \<times> conn"
  assume IH: "\<And>c str len mode t r y. f c str len mode t r = Some y \<Longrightarrow>
     mode \<longrightarrow> (\<forall>n s' c'. y = Inr (n, s', c') \<longrightarrow> s' = str)"
  assume step: "(if t < len then
        (if t < 0 \<or> r < 0 \<or> int (length str) < t + r then Some (Inl OutOfBounds)
         else if mode then
           (case sys_send c (take (nat r) (drop (nat t) str)) r of
              (n, c') \<Rightarrow>
                if n = - 1 then Some (Inr (t, str, c'))
                else f c' str len mode (t + n) (r - n))
         else
           (case sys_recv c r of
              (n, got, c') \<Rightarrow>
                if n = - 1 then Some (Inr (t, str, c'))
                else (case poke str (nat t) got of
                        None \<Rightarrow> Some (Inl OutOfBounds)
                      | Some str' \<Rightarrow> f c' str' len mode (t + n) (r - n))))
      else Some (Inr (t, str, c))) = Some y"
  show "mode \<longrightarrow> (\<forall>n s' c'. y = Inr (n, s', c') \<longrightarrow> s' = str)"
  proof (intro impI allI)
    fix n s' c'
    assume md: mode and y: "y = Inr (n, s', c')"
    from step show "s' = str"
    proof (cases rule: loop_step_cases)
      case stop
      with y show ?thesis by simp
    next
      case oob
      with y show ?thesis by simp
    next
      case (recv_oob n0 got c1)
      with y show ?thesis by simp
    next
      case (send_fail c1)
      with y show ?thesis by simp
    next
      case (recv_fail got c1)
      with md show ?thesis by simp
    next
      case (send_more n0 c1)
      from IH[OF send_more(8)] md y show ?thesis by simp
    next
      case (recv_more n0 got c1 str1)
      with md show ?thesis by simp
    qed
  qed
qed

lemma sendrecv_send_unchanged:
  "sendrecv c str len True = Some (Inr (n, s', c')) \<Longrightarrow> s' = str"
  using send_loop_unchanged[of c str len True 0 len "Inr (n, s', c')"]
  by (simp add: sendrecv_def)

lemma c_str_prefix: "c_str s = v \<Longrightarrow> take (length v) s = v"
  unfolding c_str_def by (metis takeWhile_eq_take)

lemma strcpy_auth [simp]:
  "strcpy (replicate 5 0) ''PASS'' = bytes_of ''PASS'' @ [0]"
  "strcpy (replicate 5 0) ''FAIL'' = bytes_of ''FAIL'' @ [0]"
  by (simp_all add: strcpy_def)

lemma c_str_auth [simp]:
  "c_str (bytes_of ''PASS'' @ [0]) = bytes_of ''PASS''"
  "c_str (bytes_of ''FAIL'' @ [0]) = bytes_of ''FAIL''"
  "bytes_of ''FAIL'' \<noteq> bytes_of ''PASS''"
  by (simp_all add: c_str_def bytes_of_def)

lemma enc_d_child_rejects:
  assumes h1: "sendrecv c (uninit junk 8) 7 False = Some (Inr (n1, idb, c1))"
    and h2: "c_str idb \<noteq> bytes_of ''otp_enc''"
    and h3: "sendrecv c1 (bytes_of ''FAIL'' @ [0]) 4 True = Some (Inr (n2, b2, c2))"
  shows "enc_d_child port junk room c = Some (Inr
           \<lparr>status = 0,
            trace = report False 7 n1 (enc_d_received port) @ report True 4 n2 (enc_d_sent port)
                      @ [CloseFd ListeningFD, CloseFd ConnectedFD],
            sock = c2\<rparr>)"
proof -
  have b2: "b2 = bytes_of ''FAIL'' @ [0]" using h3 by (rule sendrecv_send_unchanged)
  show ?thesis
    unfolding enc_d_child_def
    by (simp add: h1 h2 h3 b2 checked_sendrecv_def enc_d_exit_def Let_def)
qed

lemma otp_dec_session_rejected:
  assumes g1: "sendrecv (sock p) (bytes_of ''otp_dec'' @ [0]) 7 True = Some (Inr (m1, e1, d1))"
    and g2: "sendrecv d1 (uninit junk 5) 4 False = Some (Inr (m2, authb, d2))"
    and g3: "c_str authb \<noteq> bytes_of ''PASS''"
  shows "otp_dec_session port junk room ct kt tlen klen p = Some (Inr
           (p\<lparr>status := 2,
              trace := trace p @ report True 7 m1 (dec_short ''id'' ''sent to'' port)
                 @ report False 4 m2 (dec_short ''auth'' ''received from'' port)
                 @ [Stderr (''otp_dec: ERROR, could not contact or authenticate with otp_dec_d on port ''
                             @ show_int port)],
              sock := d2\<rparr>))"
  unfolding otp_dec_session_def
  by (simp add: g1 g2 g3 checked_sendrecv_def die_def)

lemma sendrecv_recv_frame:
  assumes "sendrecv c str len False = Some (Inr (n, s', c'))" "posix (ret c)" "0 \<le> len"
  shows "0 \<le> n" "n \<le> len" "ret c' = ret c" "inbound c' = inbound c" "sent c' = sent c"
    "taken c' = taken c + nat n"
  using sendrecv_post[OF assms] by (simp_all add: loop_post_def)

lemma sendrecv_send_frame:
  assumes "sendrecv c str len True = Some (Inr (n, s', c'))" "posix (ret c)" "0 \<le> len"
  shows "0 \<le> n" "n \<le> len" "ret c' = ret c" "inbound c' = inbound c"
    "sent c' = sent c @ take (nat n) str" "taken c' = taken c"
  using sendrecv_post[OF assms] by (simp_all add: loop_post_def)









lemma loop_ret_same:
  assumes "sendrecv_loop c str len mode t r = Some y"
  shows "\<forall>n s' c'. y = Inr (n, s', c') \<longrightarrow> ret c' = ret c \<and> inbound c' = inbound c"
proof (rule sendrecv_loop.raw_induct[where P = "\<lambda>c str len mode t r y.
     \<forall>n s' c'. y = Inr (n, s', c') \<longrightarrow> ret c' = ret c \<and> inbound c' = inbound c", OF _ assms])
  fix f :: "conn \<Rightarrow> byte list \<Rightarrow> int \<Rightarrow> bool \<Rightarrow> int \<Rightarrow> int \<Rightarrow> (fault + int \<times> byte list \<times> conn) option"
    and c :: conn and str :: "byte list" and len :: int and mode :: bool and t r :: int
    and y :: "fault + int \<times> byte list \<times> conn"
  assume IH: "\<And>c str len mode t r y. f c str len mode t r = Some y \<Longrightarrow>
     \<forall>n s' c'. y = Inr (n, s', c') \<longrightarrow> ret c' = ret c \<and> inbound c' = inbound c"
  assume step: "(if t < len then
        (if t < 0 \<or> r < 0 \<or> int (length str) < t + r then Some (Inl OutOfBounds)
         else if mode then
           (case sys_send c (take (nat r) (drop (nat t) str)) r of
              (n, c') \<Rightarrow>
                if n = - 1 then Some (Inr (t, str, c'))
                else f c' str len mode (t + n) (r - n))
         else
           (case sys_recv c r of
              (n, got, c') \<Rightarrow>
                if n = - 1 then Some (Inr (t, str, c'))
                else (case poke str (nat t) got of
                        None \<Rightarrow> Some (Inl OutOfBounds)
                      | Some str' \<Rightarrow> f c' str' len mode (t + n) (r - n))))
      else Some (Inr (t, str, c))) = Some y"
  show "\<forall>n s' c'. y = Inr (n, s', c') \<longrightarrow> ret c' = ret c \<and> inbound c' = inbound c"
  proof (intro impI allI)
    fix n s' c'
    assume y: "y = Inr (n, s', c')"
    from step show "ret c' = ret c \<and> inbound c' = inbound c"
    proof (cases rule: loop_step_cases)
      case stop
      with y show ?thesis by simp
    next
      case oob
      with y show ?thesis by simp
    next
      case (recv_oob n0 got c1)
      with y show ?thesis by simp
    next
      case (send_fail c1)
      with y sys_send_frame[OF send_fail(6)] show ?thesis by simp
    next
      case (recv_fail got c1)
      with y sys_recv_frame[OF recv_fail(6)] show ?thesis by simp
    next
      case (send_more n0 c1)
      from IH[OF send_more(8)] y sys_send_frame[OF send_more(6)] show ?thesis by simp
    next
      case (recv_more n0 got c1 str1)
      from IH[OF recv_more(9)] y sys_recv_frame[OF recv_more(6)] show ?thesis by simp
    qed
  qed
qed

lemma sendrecv_ret_same:
  assumes "sendrecv c str len mode = Some (Inr (n, s', c'))"
  shows "ret c' = ret c" "inbound c' = inbound c"
proof -
  have "ret c' = ret c \<and> inbound c' = inbound c"
  proof (cases mode)
    case True
    with assms have "sendrecv_loop c str len mode 0 len = Some (Inr (n, s', c'))"
      by (simp add: sendrecv_def)
    from loop_ret_same[OF this] show ?thesis by simp
  next
    case False
    with assms obtain str0 where "sendrecv_loop c str0 len mode 0 len = Some (Inr (n, s', c'))"
      by (auto simp: sendrecv_def split: option.splits)
    from loop_ret_same[OF this] show ?thesis by simp
  qed
  then show "ret c' = ret c" "inbound c' = inbound c" by simp_all
qed


lemma sendrecv_total:
  assumes "progressing (ret c)"
  shows "\<exists>y. sendrecv c str len mode = Some y"
proof -
  have loop: "\<exists>y. sendrecv_loop c s len mode 0 len = Some y" for s
  proof (cases "0 < len")
    case False
    then show ?thesis by (subst sendrecv_loop.simps) simp
  next
    case pos: True
    show ?thesis
    proof (cases "len \<le> int (length s)")
      case True
      from sendrecv_loop_returns[of c 0 len len s mode] assms pos True show ?thesis by auto
    next
      case False
      with pos show ?thesis by (subst sendrecv_loop.simps) simp
    qed
  qed
  show ?thesis
  proof (cases mode)
    case True
    with loop[of str] show ?thesis by (simp add: sendrecv_def)
  next
    case False
    show ?thesis
    proof (cases "memset str 0 (len + 1)")
      case None
      with False show ?thesis by (simp add: sendrecv_def)
    next
      case (Some s0)
      with False loop[of s0] show ?thesis by (simp add: sendrecv_def)
    qed
  qed
qed

lemma checked_sendrecv_total:
  assumes "progressing (ret (sock p))"
    and "\<And>s' p'. ret (sock p') = ret (sock p) \<Longrightarrow> \<exists>y. k s' p' = Some y"
  shows "\<exists>y. checked_sendrecv p str len mode msg k = Some y"
proof -
  from sendrecv_total[OF assms(1)] obtain y where y: "sendrecv (sock p) str len mode = Some y"
    by blast
  show ?thesis
  proof (cases y)
    case (Inl e)
    with y show ?thesis by (simp add: checked_sendrecv_def)
  next
    case (Inr res)
    obtain n s' c' where res: "res = (n, s', c')" by (cases res)
    from y Inr res have e: "sendrecv (sock p) str len mode = Some (Inr (n, s', c'))" by simp
    from sendrecv_ret_same(1)[OF e] have "ret c' = ret (sock p)" .
    then have "\<exists>y. k s' (p\<lparr>trace := trace p @ report mode len n msg, sock := c'\<rparr>) = Some y"
      by (intro assms(2)) simp
    with e show ?thesis by (simp add: checked_sendrecv_def)
  qed
qed

lemma vla_total:
  assumes "\<And>a room'. \<exists>y. k a room' = Some y"
  shows "\<exists>y. vla room junk n k = Some y"
  using assms by (simp add: vla_def)

lemma enc_d_child_returns:
  assumes "progressing (ret c)"
  shows "\<exists>y. enc_d_child port junk room c = Some y"
  unfolding enc_d_child_def Let_def
  apply (rule checked_sendrecv_total)
   apply (simp add: assms)
  apply (rule checked_sendrecv_total)
   apply (simp add: assms)
  apply (simp only: split: if_split)
  apply (intro conjI impI)
   apply (rule checked_sendrecv_total)
    apply (simp add: assms)
   apply (rule vla_total)
   apply (rule checked_sendrecv_total)
    apply (simp add: assms)
   apply (rule checked_sendrecv_total)
    apply (simp add: assms)
   apply (rule vla_total)
   apply (rule checked_sendrecv_total)
    apply (simp add: assms)
   apply (rule vla_total)
   apply (simp only: split: option.split)
   apply (intro conjI impI allI)
    apply simp
   apply (rule checked_sendrecv_total)
    apply (simp add: assms)
   apply (simp add: enc_d_exit_def)
  apply (simp add: enc_d_exit_def)
  done

lemma otp_dec_session_returns:
  assumes "progressing (ret (sock p))"
  shows "\<exists>y. otp_dec_session port junk room ct kt tlen klen p = Some y"
  unfolding otp_dec_session_def
  apply (rule checked_sendrecv_total)
   apply (simp add: assms)
  apply (rule checked_sendrecv_total)
   apply (simp add: assms)
  apply (simp only: split: if_split)
  apply (intro conjI impI)
   apply (simp add: die_def)
  apply (rule checked_sendrecv_total)
   apply (simp add: assms)
  apply (rule checked_sendrecv_total)
   apply (simp add: assms)
  apply (rule checked_sendrecv_total)
   apply (simp add: assms)
  apply (rule checked_sendrecv_total)
   apply (simp add: assms)
  apply (rule vla_total)
  apply (rule checked_sendrecv_total)
   apply (simp add: assms)
  apply simp
  done



subsection \<open>The claims about validation, admission and short transfers\<close>

text \<open>
  Claim C3 fails on the code. The test of \<^verbatim>\<open>scanfile\<close> is
  \<^verbatim>\<open>c == ' ' || (c >= 'A' || c <= 'Z')\<close>, which every character passes (lemma
  \<open>scan_ok_always\<close>), so the branch that reports bad characters is never taken. On the text
  file \<^verbatim>\<open>hello\<close> the scan returns the length 5, and the client goes on to call
  \<^verbatim>\<open>socket\<close> and \<^verbatim>\<open>connect\<close>.
\<close>

theorem lowercase_text_accepted:
  "scanfile world_lowercase ''plaintext'' = Some (Inr 5) \<and>
   map_option (map_sum id (\<lambda>r. (status r, trace r)))
     (otp_dec_main [''otp_dec'', ''plaintext'', ''key'', ''51000''] world_lowercase)
   = Some (Inr (2, [SocketCall, ConnectCall, Stderr ''otp_dec: ERROR connecting'']))"
  by code_simp

text \<open>
  Claim C9: when both files scan and the key's length is less than the text's, the client
  exits with status 1 after one line on standard error (the text is empty, the key is
  empty, or the key is too short), having written at most the port warning before; it
  calls neither \<^verbatim>\<open>socket\<close> nor \<^verbatim>\<open>connect\<close>, and its socket is untouched.
\<close>

theorem short_key_rejected:
  assumes "length argv = 4"
    and "0 \<le> atoi (bytes_of (argv ! 3))" "atoi (bytes_of (argv ! 3)) \<le> 65535"
    and "scanfile w (argv ! 1) = Some (Inr textLen)"
    and "scanfile w (argv ! 2) = Some (Inr keyLen)"
    and "keyLen < textLen"
  shows "\<exists>warn msg.
     otp_dec_main argv w = Some (Inr \<lparr>status = 1, trace = warn @ [Stderr msg], sock = net w\<rparr>) \<and>
     set warn \<subseteq> {Stdout ''otp_dec: WARNING, recommended to use a port number above 50000''} \<and>
     msg \<in> {''otp_dec: ERROR, ciphertext file cannot be empty'',
            ''otp_dec: ERROR, key file cannot be empty'',
            ''otp_dec: ERROR, key '' @ quoted (argv ! 2) @ '' is too short''}"
  using assms
  by (auto simp: otp_dec_main_def die_def Let_def)

theorem short_key_rejected_witness:
  "\<exists>warn msg.
     otp_dec_main [''otp_dec'', ''ciphertext'', ''key'', ''51000''] world_short_key
       = Some (Inr \<lparr>status = 1, trace = warn @ [Stderr msg], sock = net world_short_key\<rparr>) \<and>
     set warn \<subseteq> {Stdout ''otp_dec: WARNING, recommended to use a port number above 50000''} \<and>
     msg \<in> {''otp_dec: ERROR, ciphertext file cannot be empty'',
            ''otp_dec: ERROR, key file cannot be empty'',
            ''otp_dec: ERROR, key '' @ quoted ([''otp_dec'', ''ciphertext'', ''key'', ''51000''] ! 2)
               @ '' is too short''}"
proof -
  let ?argv = "[''otp_dec'', ''ciphertext'', ''key'', ''51000'']"
  have a: "length ?argv = 4" by simp
  have "atoi (bytes_of ''51000'') = 51000" by code_simp
  then have p: "atoi (bytes_of (?argv ! 3)) = 51000" by simp
  have p1: "0 \<le> atoi (bytes_of (?argv ! 3))" "atoi (bytes_of (?argv ! 3)) \<le> 65535"
    unfolding p by simp_all
  have t: "scanfile world_short_key (?argv ! 1) = Some (Inr 5)"
    using scanfile_line[of world_short_key "''ciphertext''" "bytes_of ''CSBWR''" "[]"]
    by (simp add: world_short_key_def bytes_of_def)
  have k: "scanfile world_short_key (?argv ! 2) = Some (Inr 3)"
    using scanfile_line[of world_short_key "''key''" "bytes_of ''WOR''" "[]"]
    by (simp add: world_short_key_def bytes_of_def)
  have "(3::int) < 5" by simp
  from short_key_rejected[OF a p1 t k this] show ?thesis .
qed

text \<open>The port argument \<^verbatim>\<open>4295018296\<close> is the \<^verbatim>\<open>int\<close> 51000 to the program, so the
  run goes past the port check and ends at the length check in the same way.\<close>

lemma wrapped_port_short_key:
  "map_option (map_sum id (\<lambda>r. (status r, trace r)))
     (otp_dec_main [''otp_dec'', ''ciphertext'', ''key'', ''4295018296''] world_short_key)
   = Some (Inr (1, [Stderr (''otp_dec: ERROR, key '' @ quoted ''key'' @ '' is too short'')]))"
  by code_simp

text \<open>
  Claim C4: when the token that the encryption daemon has received differs from
  \<^verbatim>\<open>otp_enc\<close> in its first 7 bytes, the child sends \<^verbatim>\<open>FAIL\<close> (the bytes of it that
  \<^verbatim>\<open>send\<close> accepts), makes no further transfer, reads no further inbound byte, closes
  both descriptors and exits with status 0. A client whose received admission result is
  not \<^verbatim>\<open>PASS\<close> writes its error line and exits with status 2 without any further
  transfer.
\<close>

theorem wrong_identity_rejected:
  assumes px: "posix (ret c)"
    and h1: "sendrecv c (uninit junk 8) 7 False = Some (Inr (n1, idb, c1))"
    and h2: "take 7 idb \<noteq> bytes_of ''otp_enc''"
    and h3: "sendrecv c1 (bytes_of ''FAIL'' @ [0]) 4 True = Some (Inr (n2, b2, c2))"
    and g1: "sendrecv (sock p) (bytes_of ''otp_dec'' @ [0]) 7 True = Some (Inr (m1, e1, d1))"
    and g2: "sendrecv d1 (uninit junk' 5) 4 False = Some (Inr (m2, authb, d2))"
    and g3: "c_str authb \<noteq> bytes_of ''PASS''"
  shows "enc_d_child port junk room c = Some (Inr
           \<lparr>status = 0,
            trace = report False 7 n1 (enc_d_received port) @ report True 4 n2 (enc_d_sent port)
                      @ [CloseFd ListeningFD, CloseFd ConnectedFD],
            sock = c2\<rparr>) \<and>
         sent c2 = sent c @ take (nat n2) (bytes_of ''FAIL'') \<and>
         taken c2 = taken c + nat n1 \<and>
         otp_dec_session port' junk' room' ct kt tlen klen p = Some (Inr
           (p\<lparr>status := 2,
              trace := trace p @ report True 7 m1 (dec_short ''id'' ''sent to'' port')
                 @ report False 4 m2 (dec_short ''auth'' ''received from'' port')
                 @ [Stderr (''otp_dec: ERROR, could not contact or authenticate with otp_dec_d on port ''
                             @ show_int port')],
              sock := d2\<rparr>))"
proof -
  have "c_str idb \<noteq> bytes_of ''otp_enc''"
  proof
    assume "c_str idb = bytes_of ''otp_enc''"
    from c_str_prefix[OF this] have "take (length (bytes_of ''otp_enc'')) idb = bytes_of ''otp_enc''" .
    moreover have "length (bytes_of ''otp_enc'') = 7" by (simp add: bytes_of_def)
    ultimately show False using h2 by simp
  qed
  then have A: "enc_d_child port junk room c = Some (Inr
           \<lparr>status = 0,
            trace = report False 7 n1 (enc_d_received port) @ report True 4 n2 (enc_d_sent port)
                      @ [CloseFd ListeningFD, CloseFd ConnectedFD],
            sock = c2\<rparr>)"
    using h1 h3 by (intro enc_d_child_rejects)
  note f1 = sendrecv_recv_frame[OF h1 px]
  have px1: "posix (ret c1)" using f1(3) px by simp
  note f2 = sendrecv_send_frame[OF h3 px1]
  have l4: "length (bytes_of ''FAIL'') = 4" by (simp add: bytes_of_def)
  have "take (nat n2) (bytes_of ''FAIL'' @ [0]) = take (nat n2) (bytes_of ''FAIL'')"
    using f2(2) l4 by simp
  then have B: "sent c2 = sent c @ take (nat n2) (bytes_of ''FAIL'')" using f1(5) f2(5) by simp
  have C: "taken c2 = taken c + nat n1" using f1(6) f2(6) by simp
  show ?thesis using A B C otp_dec_session_rejected[OF g1 g2 g3] by simp
qed

theorem wrong_identity_rejected_witness:
  "posix (ret conn_wrong_id) \<and>
   (\<exists>c2 d2.
     enc_d_child 51000 (\<lambda>_. 0x55) 8388608 conn_wrong_id = Some (Inr
           \<lparr>status = 0,
            trace = report False 7 7 (enc_d_received 51000) @ report True 4 4 (enc_d_sent 51000)
                      @ [CloseFd ListeningFD, CloseFd ConnectedFD],
            sock = c2\<rparr>) \<and>
     sent c2 = sent conn_wrong_id @ take (nat 4) (bytes_of ''FAIL'') \<and>
     taken c2 = taken conn_wrong_id + nat 7 \<and>
     otp_dec_session 51000 (\<lambda>_. 0x55) 8388608 (bytes_of ''CSBWR'' @ [0])
         (bytes_of ''WORLD'' @ [0]) 5 5
         (run_connected (conn_of (\<lambda>k n. n) (bytes_of ''FAIL''))) = Some (Inr
           (run_connected (conn_of (\<lambda>k n. n) (bytes_of ''FAIL''))
            \<lparr>status := 2,
              trace := trace (run_connected (conn_of (\<lambda>k n. n) (bytes_of ''FAIL'')))
                 @ report True 7 7 (dec_short ''id'' ''sent to'' 51000)
                 @ report False 4 4 (dec_short ''auth'' ''received from'' 51000)
                 @ [Stderr (''otp_dec: ERROR, could not contact or authenticate with otp_dec_d on port ''
                             @ show_int 51000)],
              sock := d2\<rparr>)))"
proof -
  let ?J = "\<lambda>_::nat. 0x55 :: byte"
  let ?c = "conn_wrong_id"
  let ?c1 = "\<lparr>ret = \<lambda>k n. n, inbound = feed (bytes_of ''otp_dec''), calls = 1, taken = 7,
              sent = []\<rparr>"
  let ?c2 = "\<lparr>ret = \<lambda>k n. n, inbound = feed (bytes_of ''otp_dec''), calls = 2, taken = 7,
              sent = bytes_of ''FAIL''\<rparr>"
  let ?p = "run_connected (conn_of (\<lambda>k n. n) (bytes_of ''FAIL''))"
  let ?d1 = "\<lparr>ret = \<lambda>k n. n, inbound = feed (bytes_of ''FAIL''), calls = 1, taken = 0,
              sent = bytes_of ''otp_dec''\<rparr>"
  let ?d2 = "\<lparr>ret = \<lambda>k n. n, inbound = feed (bytes_of ''FAIL''), calls = 2, taken = 4,
              sent = bytes_of ''otp_dec''\<rparr>"
  have px: "posix (ret ?c)" by (auto simp: posix_def conn_wrong_id_def conn_of_def)
  have h1: "sendrecv ?c (uninit ?J 8) 7 False = Some (Inr (7, bytes_of ''otp_dec'' @ [0], ?c1))"
    by (simp add: sendrecv_def sendrecv_loop.simps sys_recv_def poke_def memset_def uninit_def
        conn_wrong_id_def conn_of_def feed_def bytes_of_def Let_def upt_conv_Cons)
  have h2: "take 7 (bytes_of ''otp_dec'' @ [0]) \<noteq> bytes_of ''otp_enc''"
    by (simp add: bytes_of_def)
  have h3: "sendrecv ?c1 (bytes_of ''FAIL'' @ [0]) 4 True
              = Some (Inr (4, bytes_of ''FAIL'' @ [0], ?c2))"
    by (simp add: sendrecv_def sendrecv_loop.simps sys_send_def bytes_of_def Let_def)
  have g1: "sendrecv (sock ?p) (bytes_of ''otp_dec'' @ [0]) 7 True
              = Some (Inr (7, bytes_of ''otp_dec'' @ [0], ?d1))"
    by (simp add: run_connected_def conn_of_def sendrecv_def sendrecv_loop.simps sys_send_def
        bytes_of_def Let_def)
  have g2: "sendrecv ?d1 (uninit ?J 5) 4 False = Some (Inr (4, bytes_of ''FAIL'' @ [0], ?d2))"
    by (simp add: sendrecv_def sendrecv_loop.simps sys_recv_def poke_def memset_def uninit_def
        feed_def bytes_of_def Let_def upt_conv_Cons)
  have g3: "c_str (bytes_of ''FAIL'' @ [0]) \<noteq> bytes_of ''PASS''"
    by simp
  from wrong_identity_rejected[OF px h1 h2 h3 g1 g2 g3, where port = 51000 and port' = 51000
      and room = 8388608 and room' = 8388608
      and ct = "bytes_of ''CSBWR'' @ [0]" and kt = "bytes_of ''WORLD'' @ [0]"
      and tlen = 5 and klen = 5] px
  show ?thesis by blast
qed

text \<open>The lines that the two programs write after a short transfer, for the port 51000.\<close>

lemma diagnostics_text:
  "enc_d_received 51000 4 = ''otp_enc_d: ERROR, only 4 chars were received from client on port 51000''"
  "enc_d_sent 51000 2 = ''otp_enc_d: ERROR, only 2 chars were sent to client on port 51000''"
  "dec_short ''id'' ''sent to'' 51000 3
     = ''otp_dec: ERROR, only 3 chars of id were sent to server on port 51000''"
  "dec_short ''auth'' ''received from'' 51000 2
     = ''otp_dec: ERROR, only 2 chars of auth were received from server on port 51000''"
  "dec_short ''textLen'' ''sent to'' 51000 8
     = ''otp_dec: ERROR, only 8 chars of textLen were sent to server on port 51000''"
  "dec_short ''ciphertext'' ''sent to'' 51000 2
     = ''otp_dec: ERROR, only 2 chars of ciphertext were sent to server on port 51000''"
  "dec_short ''keyLen'' ''sent to'' 51000 0
     = ''otp_dec: ERROR, only 0 chars of keyLen were sent to server on port 51000''"
  "dec_short ''key'' ''sent to'' 51000 5
     = ''otp_dec: ERROR, only 5 chars of key were sent to server on port 51000''"
  "dec_short ''encryption'' ''recevied from'' 51000 1
     = ''otp_dec: ERROR, only 1 chars of encryption were recevied from server on port 51000''"
  by code_simp+

text \<open>
  Three runs with a short transfer, evaluated: status, trace and the bytes handed to the
  peer. The daemon's child receives 4 of the 5 bytes of the key and encrypts the text
  \<^verbatim>\<open>"A B"\<close> with the key array as it is, \<^verbatim>\<open>"XYZV"\<close>; the client gets only 2 of the 5
  bytes of its ciphertext out and goes on with the length of the key; the daemon's child
  receives 6 of the 7 bytes of the token and replies \<^verbatim>\<open>FAIL\<close>.
\<close>

lemma short_key_receive_run:
  "map_option (map_sum id (\<lambda>r. (status r, trace r, sent (sock r))))
     (enc_d_child 51000 (\<lambda>_. 0x55) 8388608 conn_short_key)
   = Some (Inr (0,
       [Xfer False 7 7, Xfer True 4 4, Xfer False 9 9, Xfer False 3 3, Xfer False 9 9,
        Xfer False 5 4,
        Stderr ''otp_enc_d: ERROR, only 4 chars were received from client on port 51000'',
        Xfer True 3 3, CloseFd ListeningFD, CloseFd ConnectedFD], bytes_of ''PASSYYA''))"
  by code_simp

lemma short_text_send_run:
  "map_option (map_sum id (\<lambda>r. (status r, trace r, sent (sock r))))
     (otp_dec_session 51000 (\<lambda>_. 0x55) 8388608 (bytes_of ''CSBWR'' @ [0])
        (bytes_of ''WORLDS'' @ [0]) 5 6 (run_connected conn_short_text))
   = Some (Inr (0,
       [SocketCall, ConnectCall, Xfer True 7 7, Xfer False 4 4, Xfer True 9 9, Xfer True 5 2,
        Stderr ''otp_dec: ERROR, only 2 chars of ciphertext were sent to server on port 51000'',
        Xfer True 9 9, Xfer True 6 6, Xfer False 5 5, Print (bytes_of ''HELLO''),
        CloseFd SockFD],
       bytes_of ''otp_dec5'' @ replicate 8 0 @ bytes_of ''CS6'' @ replicate 8 0
         @ bytes_of ''WORLDS''))"
  by code_simp

lemma short_token_receive_run:
  "map_option (map_sum id (\<lambda>r. (status r, trace r, sent (sock r))))
     (enc_d_child 51000 (\<lambda>_. 0x55) 8388608 conn_short_token)
   = Some (Inr (0,
       [Xfer False 7 6,
        Stderr ''otp_enc_d: ERROR, only 6 chars were received from client on port 51000'',
        Xfer True 4 4, CloseFd ListeningFD, CloseFd ConnectedFD], bytes_of ''FAIL''))"
  by code_simp

text \<open>
  Going on after a short receive can leave the stream out of step. Here the text arrives
  cut to 2 of its 3 bytes; the child goes on, reads the rest of the text and the key
  length as the next length field (\<^verbatim>\<open>"B5"\<close>, which \<^verbatim>\<open>atoi\<close> makes 0), declares a key
  array of one byte, and \<^verbatim>\<open>encrypt\<close> then reads that array beyond its end: the run ends
  in undefined behaviour, of which nothing can be said.
\<close>

lemma out_of_step_run:
  "map_option (map_sum id trace) (enc_d_child 51000 (\<lambda>_. 0x55) 8388608 conn_out_of_step)
   = Some (Inl OutOfBounds)"
  by code_simp

text \<open>The arrays of the child are as large as the peer says: a length field of
  \<^verbatim>\<open>999999999\<close> asks for more than a stack of 8 MiB holds.\<close>

lemma huge_length_run:
  "map_option (map_sum id trace) (enc_d_child 51000 (\<lambda>_. 0x55) 8388608 conn_huge_length)
   = Some (Inl StackOverflow)"
  by code_simp




end
